theory Spec2Isabelle
  imports Complex_Main "HOL-Library.Word" "HOL-Library.Multiset"
begin

section \<open>Arrays, the store and errors\<close>

text \<open>
  An image is a numpy array of shape \<open>(H, W, 3)\<close> with 8-bit channels
  (\<open>load_image\<close> converts every file to RGB).  The two leading dimensions are kept
  beside the pixel rows, since an array with no rows still has a width.
\<close>

type_synonym pixel = "8 word \<times> 8 word \<times> 8 word"

record ndarray =
  shape0 :: nat
  shape1 :: nat
  rows :: "pixel list list"

definition wf_array :: "ndarray \<Rightarrow> bool" where
  "wf_array a \<longleftrightarrow> length (rows a) = shape0 a \<and> list_all (\<lambda>r. length r = shape1 a) (rows a)"

text \<open>
  Arrays are mutable objects.  The store is the list of all array buffers allocated so
  far; an array reference is an index into it.  Allocation appends.
\<close>

type_synonym addr = nat
type_synonym heap = "ndarray list"

datatype error = AttributeError | IndexError | ValueError | CvError

text \<open>A call ends with a value or with a raised exception, and leaves a store behind.\<close>

type_synonym 'a res = "(error + 'a) \<times> heap"

definition alloc :: "heap \<Rightarrow> ndarray \<Rightarrow> addr \<times> heap" where
  "alloc h v = (length h, h @ [v])"

text \<open>\<open>a.copy()\<close>\<close>

definition np_copy :: "heap \<Rightarrow> addr \<Rightarrow> addr \<times> heap" where
  "np_copy h a = alloc h (h ! a)"

text \<open>\<open>np.zeros_like(a)\<close>\<close>

definition zeros :: "nat \<Rightarrow> nat \<Rightarrow> ndarray" where
  "zeros m n = \<lparr>shape0 = m, shape1 = n, rows = replicate m (replicate n (0, 0, 0))\<rparr>"

definition np_zeros_like :: "heap \<Rightarrow> addr \<Rightarrow> addr \<times> heap" where
  "np_zeros_like h a = alloc h (zeros (shape0 (h ! a)) (shape1 (h ! a)))"

text \<open>
  \<open>xs[i:j]\<close> for non-negative \<open>i\<close>, \<open>j\<close>: both ends are clipped to the length and
  the slice is empty when \<open>j \<le> i\<close>.
\<close>

definition get_slice :: "nat \<Rightarrow> nat \<Rightarrow> 'a list \<Rightarrow> 'a list" where
  "get_slice i j xs = take (j - i) (drop i xs)"

text \<open>The contents of the view \<open>a[y0:y1, x0:x1]\<close>.\<close>

definition subarray :: "ndarray \<Rightarrow> nat \<Rightarrow> nat \<Rightarrow> nat \<Rightarrow> nat \<Rightarrow> ndarray" where
  "subarray a y0 y1 x0 x1 =
     \<lparr>shape0 = min y1 (shape0 a) - min y0 (shape0 a),
      shape1 = min x1 (shape1 a) - min x0 (shape1 a),
      rows = map (get_slice x0 x1) (get_slice y0 y1 (rows a))\<rparr>"

text \<open>
  Broadcasting of the right-hand side of a slice assignment to the shape of the
  destination: each dimension has to agree or to be 1, else numpy raises ValueError.
\<close>

definition broadcast_to :: "ndarray \<Rightarrow> nat \<Rightarrow> nat \<Rightarrow> pixel list list option" where
  "broadcast_to t th tw =
     (if (shape0 t = th \<or> shape0 t = 1) \<and> (shape1 t = tw \<or> shape1 t = 1)
      then let rs = map (\<lambda>r. if shape1 t = tw then r else replicate tw (hd r)) (rows t)
           in Some (if shape0 t = th then rs else replicate th (hd rs))
      else None)"

text \<open>
  \<open>xs[i:j] = new\<close> where \<open>new\<close> has the length of the slice: the elements from
  \<open>i\<close> up to \<open>j\<close> are replaced, none when \<open>j \<le> i\<close>.
\<close>

definition set_slice :: "nat \<Rightarrow> nat \<Rightarrow> 'a list \<Rightarrow> 'a list \<Rightarrow> 'a list" where
  "set_slice i j xs new = take i xs @ new @ drop (max i j) xs"

text \<open>\<open>dst[y0:y1, x0:x1] = src\<close>: the only write into an existing buffer.\<close>

definition setitem :: "heap \<Rightarrow> addr \<Rightarrow> nat \<Rightarrow> nat \<Rightarrow> nat \<Rightarrow> nat \<Rightarrow> addr \<Rightarrow> unit res" where
  "setitem h dst y0 y1 x0 x1 src =
     (let d = h ! dst;
          th = min y1 (shape0 d) - min y0 (shape0 d);
          tw = min x1 (shape1 d) - min x0 (shape1 d)
      in case broadcast_to (h ! src) th tw of
           None \<Rightarrow> (Inl ValueError, h)
         | Some new \<Rightarrow>
             (Inr (),
              h[dst := d\<lparr>rows := set_slice y0 y1 (rows d)
                  (map2 (\<lambda>r n. set_slice x0 x1 r n) (get_slice y0 y1 (rows d)) new)\<rparr>]))"

text \<open>\<open>xs[i]\<close> for a non-negative index.\<close>

definition py_nth :: "'a list \<Rightarrow> nat \<Rightarrow> error + 'a" where
  "py_nth xs i = (if i < length xs then Inr (xs ! i) else Inl IndexError)"

section \<open>The library calls\<close>

text \<open>
  What the program takes from OpenCV and from the random module is a parameter of the
  model: the value \<open>interp s th tw y x\<close> that bilinear interpolation gives the pixel
  \<open>(y, x)\<close> of the resized tile, the list \<open>shuffle p xs\<close> that \<open>random.shuffle\<close>
  leaves in place of \<open>xs\<close> in pass \<open>p\<close>, and the number \<open>pick p k\<close> drawn by the
  \<open>k\<close>-th \<open>random.choice\<close> of pass \<open>p\<close>.
\<close>

record env =
  interp :: "ndarray \<Rightarrow> nat \<Rightarrow> nat \<Rightarrow> nat \<Rightarrow> nat \<Rightarrow> pixel"
  shuffle :: "nat \<Rightarrow> nat list \<Rightarrow> nat list"
  pick :: "nat \<Rightarrow> nat \<Rightarrow> nat"

text \<open>
  \<open>cv2.resize(src, (tw, th), interpolation=cv2.INTER_LINEAR)\<close> returns a new array
  of shape \<open>(th, tw)\<close>.  OpenCV asserts that the source is not empty and, with no
  scale factors given, that the requested size is not empty; a failed assertion is
  raised as \<open>cv2.error\<close>.
\<close>

definition cv2_resize :: "env \<Rightarrow> heap \<Rightarrow> addr \<Rightarrow> nat \<Rightarrow> nat \<Rightarrow> addr res" where
  "cv2_resize e h src tw th =
     (let s = h ! src
      in if shape0 s = 0 \<or> shape1 s = 0 then (Inl CvError, h)
         else if tw = 0 \<or> th = 0 then (Inl CvError, h)
         else let (r, h') = alloc h
                    \<lparr>shape0 = th, shape1 = tw,
                     rows = map (\<lambda>y. map (\<lambda>x. interp e s th tw y x) [0..<tw]) [0..<th]\<rparr>
              in (Inr r, h'))"

section \<open>Grid boundaries and tile extraction\<close>

text \<open>\<open>[0] + [(h * i) // grid_n for i in range(1, grid_n)] + [h]\<close>\<close>

definition bounds :: "nat \<Rightarrow> int \<Rightarrow> nat list" where
  "bounds h grid_n = [0] @ map (\<lambda>i. nat ((int h * i) div grid_n)) [1..grid_n - 1] @ [h]"

text \<open>\<open>for ry in range(grid_n): for rx in range(grid_n):\<close>\<close>

definition cells :: "int \<Rightarrow> (nat \<times> nat) list" where
  "cells grid_n = concat (map (\<lambda>ry. map (\<lambda>rx. (ry, rx)) [0..<nat grid_n]) [0..<nat grid_n])"

fun extract_loop ::
  "heap \<Rightarrow> addr \<Rightarrow> nat list \<Rightarrow> nat list \<Rightarrow> (nat \<times> nat) list \<Rightarrow> addr list \<Rightarrow> addr list \<times> heap"
where
  "extract_loop h img ys xs [] tiles = (tiles, h)"
| "extract_loop h img ys xs ((ry, rx) # cs) tiles =
     (let (tile, h') = alloc h (subarray (h ! img) (ys ! ry) (ys ! (ry + 1)) (xs ! rx) (xs ! (rx + 1)))
      in extract_loop h' img ys xs cs (tiles @ [tile]))"

text \<open>\<open>img.shape\<close> of \<open>None\<close> raises AttributeError.\<close>

definition extract_tiles_from_image :: "heap \<Rightarrow> addr option \<Rightarrow> int \<Rightarrow> addr list res" where
  "extract_tiles_from_image h img grid_n =
     (case img of
        None \<Rightarrow> (Inl AttributeError, h)
      | Some a \<Rightarrow>
          (let ys = bounds (shape0 (h ! a)) grid_n;
               xs = bounds (shape1 (h ! a)) grid_n;
               (tiles, h') = extract_loop h a ys xs (cells grid_n) []
           in (Inr tiles, h')))"

section \<open>The mosaic\<close>

text \<open>The resize guard in front of both slice assignments.\<close>

definition fit_tile :: "env \<Rightarrow> heap \<Rightarrow> addr \<Rightarrow> nat \<Rightarrow> nat \<Rightarrow> addr res" where
  "fit_tile e h src_tile th tw =
     (if shape0 (h ! src_tile) \<noteq> th \<or> shape1 (h ! src_tile) \<noteq> tw
      then cv2_resize e h src_tile tw th
      else (Inr src_tile, h))"

definition place_tile ::
  "env \<Rightarrow> heap \<Rightarrow> addr \<Rightarrow> nat list \<Rightarrow> nat list \<Rightarrow> nat \<times> nat \<Rightarrow> addr \<Rightarrow> unit res" where
  "place_tile e h new_img ys xs c src_tile =
     (let y0 = ys ! fst c; y1 = ys ! (fst c + 1);
          x0 = xs ! snd c; x1 = xs ! (snd c + 1)
      in case fit_tile e h src_tile (y1 - y0) (x1 - x0) of
           (Inl err, h') \<Rightarrow> (Inl err, h')
         | (Inr t, h') \<Rightarrow> setitem h' new_img y0 y1 x0 x1 t)"

text \<open>No-pool mode: the target cell \<open>tgt_idx\<close> takes \<open>tiles[perm[tgt_idx]]\<close>.\<close>

fun shuffle_loop ::
  "env \<Rightarrow> heap \<Rightarrow> addr \<Rightarrow> nat list \<Rightarrow> nat list \<Rightarrow> addr list \<Rightarrow> nat list \<Rightarrow> nat \<Rightarrow>
   (nat \<times> nat) list \<Rightarrow> unit res"
where
  "shuffle_loop e h new_img ys xs tiles perm tgt_idx [] = (Inr (), h)"
| "shuffle_loop e h new_img ys xs tiles perm tgt_idx (c # cs) =
     (case py_nth perm tgt_idx of
        Inl err \<Rightarrow> (Inl err, h)
      | Inr i \<Rightarrow>
          (case py_nth tiles i of
             Inl err \<Rightarrow> (Inl err, h)
           | Inr src_tile \<Rightarrow>
               (case place_tile e h new_img ys xs c src_tile of
                  (Inl err, h') \<Rightarrow> (Inl err, h')
                | (Inr u, h') \<Rightarrow> shuffle_loop e h' new_img ys xs tiles perm (tgt_idx + 1) cs)))"

text \<open>
  Pool mode: every target cell takes \<open>random.choice(pool_tiles)\<close>, which raises
  IndexError on an empty sequence and else returns the element at a drawn index below
  the length.
\<close>

fun pool_loop ::
  "env \<Rightarrow> heap \<Rightarrow> addr \<Rightarrow> nat list \<Rightarrow> nat list \<Rightarrow> addr list \<Rightarrow> nat \<Rightarrow> nat \<Rightarrow>
   (nat \<times> nat) list \<Rightarrow> unit res"
where
  "pool_loop e h new_img ys xs pool_tiles p k [] = (Inr (), h)"
| "pool_loop e h new_img ys xs pool_tiles p k (c # cs) =
     (if pool_tiles = [] then (Inl IndexError, h)
      else case place_tile e h new_img ys xs c
                  (pool_tiles ! (pick e p k mod length pool_tiles)) of
             (Inl err, h') \<Rightarrow> (Inl err, h')
           | (Inr u, h') \<Rightarrow> pool_loop e h' new_img ys xs pool_tiles p (k + 1) cs)"

text \<open>
  One pass, the body of \<open>for _ in range(max(1, iterations))\<close>.  The first pair of nested
  loops of the body only reads the boundaries and is left out.
\<close>

definition mosaic_pass ::
  "env \<Rightarrow> int \<Rightarrow> addr \<Rightarrow> nat list \<Rightarrow> nat list \<Rightarrow> addr list option \<Rightarrow> nat \<Rightarrow> heap \<Rightarrow> addr \<Rightarrow> addr res"
where
  "mosaic_pass e grid_n img ys xs pool_tiles p h out =
     (let (new_img, h1) = np_zeros_like h img
      in case pool_tiles of
           None \<Rightarrow>
             (case extract_tiles_from_image h1 (Some out) grid_n of
                (Inl err, h2) \<Rightarrow> (Inl err, h2)
              | (Inr tiles, h2) \<Rightarrow>
                  (case shuffle_loop e h2 new_img ys xs tiles
                          (shuffle e p [0..<length tiles]) 0 (cells grid_n) of
                     (Inl err, h3) \<Rightarrow> (Inl err, h3)
                   | (Inr u, h3) \<Rightarrow> (Inr new_img, h3)))
         | Some pts \<Rightarrow>
             (case pool_loop e h1 new_img ys xs pts p 0 (cells grid_n) of
                (Inl err, h3) \<Rightarrow> (Inl err, h3)
              | (Inr u, h3) \<Rightarrow> (Inr new_img, h3)))"

fun run_passes ::
  "env \<Rightarrow> int \<Rightarrow> addr \<Rightarrow> nat list \<Rightarrow> nat list \<Rightarrow> addr list option \<Rightarrow> nat \<Rightarrow> nat \<Rightarrow> heap \<Rightarrow> addr \<Rightarrow>
   addr res"
where
  "run_passes e grid_n img ys xs pool_tiles 0 p h out = (Inr out, h)"
| "run_passes e grid_n img ys xs pool_tiles (Suc k) p h out =
     (case mosaic_pass e grid_n img ys xs pool_tiles p h out of
        (Inl err, h') \<Rightarrow> (Inl err, h')
      | (Inr out', h') \<Rightarrow> run_passes e grid_n img ys xs pool_tiles k (Suc p) h' out')"

text \<open>
  The pool: \<open>try: pool_tiles.extend(extract_tiles_from_image(pimg, grid_n))\<close>,
  \<open>except Exception: continue\<close>.
\<close>

fun collect_pool :: "heap \<Rightarrow> addr option list \<Rightarrow> int \<Rightarrow> addr list \<Rightarrow> addr list \<times> heap" where
  "collect_pool h [] grid_n pool_tiles = (pool_tiles, h)"
| "collect_pool h (pimg # ps) grid_n pool_tiles =
     (case extract_tiles_from_image h pimg grid_n of
        (Inl err, h') \<Rightarrow> collect_pool h' ps grid_n pool_tiles
      | (Inr tiles, h') \<Rightarrow> collect_pool h' ps grid_n (pool_tiles @ tiles))"

text \<open>
  \<open>if pool_images:\<close> holds for a list that is not empty; \<open>if not pool_tiles:\<close> sends
  an empty collection back to \<open>None\<close>.
\<close>

definition prepare_pool ::
  "heap \<Rightarrow> addr option list option \<Rightarrow> int \<Rightarrow> addr list option \<times> heap" where
  "prepare_pool h pool_images grid_n =
     (case pool_images of
        None \<Rightarrow> (None, h)
      | Some ps \<Rightarrow>
          if ps = [] then (None, h)
          else let (pts, h') = collect_pool h ps grid_n []
               in (if pts = [] then None else Some pts, h'))"

definition create_mosaic ::
  "env \<Rightarrow> heap \<Rightarrow> addr option \<Rightarrow> int \<Rightarrow> int \<Rightarrow> addr option list option \<Rightarrow> addr option res"
where
  "create_mosaic e h img grid_n iterations pool_images =
     (case img of
        None \<Rightarrow> (Inr None, h)
      | Some im \<Rightarrow>
          if grid_n \<le> 1 then (let (c, h') = np_copy h im in (Inr (Some c), h'))
          else
            let ys = bounds (shape0 (h ! im)) grid_n;
                xs = bounds (shape1 (h ! im)) grid_n;
                (pool_tiles, h1) = prepare_pool h pool_images grid_n;
                (out, h2) = np_copy h1 im
            in case run_passes e grid_n im ys xs pool_tiles (nat (max 1 iterations)) 0 h2 out of
                 (Inl err, h3) \<Rightarrow> (Inl err, h3)
               | (Inr out', h3) \<Rightarrow> (Inr (Some out'), h3))"

section \<open>Notions used by the statements\<close>

text \<open>The pixel \<open>(y, x)\<close> lies in the cell \<open>c = (ry, rx)\<close> of the grid \<open>ys\<close>, \<open>xs\<close>.\<close>

definition in_cell :: "nat list \<Rightarrow> nat list \<Rightarrow> nat \<times> nat \<Rightarrow> nat \<Rightarrow> nat \<Rightarrow> bool" where
  "in_cell ys xs c y x \<longleftrightarrow>
     ys ! fst c \<le> y \<and> y < ys ! (fst c + 1) \<and> xs ! snd c \<le> x \<and> x < xs ! (snd c + 1)"

text \<open>A 2 x 2 image with one colour per pixel (red, green, blue, yellow).\<close>

definition quad :: ndarray where
  "quad = \<lparr>shape0 = 2, shape1 = 2,
           rows = [[(255, 0, 0), (0, 255, 0)], [(0, 0, 255), (255, 255, 0)]]\<rparr>"

text \<open>A 1 x 1 image.\<close>

definition dot :: ndarray where
  "dot = \<lparr>shape0 = 1, shape1 = 1, rows = [[(7, 8, 9)]]\<rparr>"

text \<open>
  A library behaviour for the worked examples: the shuffle reverses its list, the
  \<open>k\<close>-th choice of a pass draws \<open>k\<close>, interpolation gives black.
\<close>

definition rev_env :: env where
  "rev_env = \<lparr>interp = (\<lambda>s th tw y x. (0, 0, 0)), shuffle = (\<lambda>p xs. rev xs), pick = (\<lambda>p k. k)\<rparr>"

text \<open>
  The store \<open>h'\<close> has all the buffers of \<open>h\<close>, and those below address \<open>b\<close> hold
  what they held in \<open>h\<close>.
\<close>

definition grows :: "nat \<Rightarrow> heap \<Rightarrow> heap \<Rightarrow> bool" where
  "grows b h h' \<longleftrightarrow> length h \<le> length h' \<and> take b h' = take b h"

text \<open>The contents of the \<open>n\<^sup>2\<close> cells of an array, in row-major order.\<close>

definition cell_views :: "ndarray \<Rightarrow> int \<Rightarrow> ndarray list" where
  "cell_views a n =
     map (\<lambda>c. subarray a (bounds (shape0 a) n ! fst c) (bounds (shape0 a) n ! (fst c + 1))
                         (bounds (shape1 a) n ! snd c) (bounds (shape1 a) n ! (snd c + 1)))
       (cells n)"

text \<open>
  The store \<open>h'\<close> has all the buffers of \<open>h\<close> with the shapes they had, and is
  well-formed if \<open>h\<close> was.
\<close>

definition keeps :: "heap \<Rightarrow> heap \<Rightarrow> bool" where
  "keeps h h' \<longleftrightarrow>
     length h \<le> length h'
     \<and> (\<forall>a<length h. shape0 (h' ! a) = shape0 (h ! a) \<and> shape1 (h' ! a) = shape1 (h ! a))
     \<and> (list_all wf_array h \<longrightarrow> list_all wf_array h')"

text \<open>Every array reference in the pool points into the store.\<close>

definition valid_pool :: "heap \<Rightarrow> addr option list option \<Rightarrow> bool" where
  "valid_pool h pool \<longleftrightarrow>
     (case pool of None \<Rightarrow> True
      | Some ps \<Rightarrow> list_all (\<lambda>p. case p of None \<Rightarrow> True | Some a \<Rightarrow> a < length h) ps)"


text \<open>\<open>return out\<close> at the end of \<open>create_mosaic\<close>, after the passes.\<close>

definition returned :: "addr res \<Rightarrow> addr option res" where
  "returned r = (case r of (Inl err, h) \<Rightarrow> (Inl err, h) | (Inr out, h) \<Rightarrow> (Inr (Some out), h))"


text \<open>The destination of a slice assignment after the write.\<close>

definition written :: "ndarray \<Rightarrow> nat \<Rightarrow> nat \<Rightarrow> nat \<Rightarrow> nat \<Rightarrow> pixel list list \<Rightarrow> ndarray" where
  "written d y0 y1 x0 x1 new =
     d\<lparr>rows := set_slice y0 y1 (rows d)
           (map2 (\<lambda>r n. set_slice x0 x1 r n) (get_slice y0 y1 (rows d)) new)\<rparr>"

text \<open>The contents of the cell \<open>c\<close> of the grid \<open>ys\<close>, \<open>xs\<close> of an array.\<close>

definition cell_of :: "ndarray \<Rightarrow> nat list \<Rightarrow> nat list \<Rightarrow> nat \<times> nat \<Rightarrow> ndarray" where
  "cell_of d ys xs c = subarray d (ys ! fst c) (ys ! (fst c + 1)) (xs ! snd c) (xs ! (snd c + 1))"

section \<open>The grid boundaries\<close>

lemma length_bounds: "1 \<le> n \<Longrightarrow> length (bounds h n) = nat n + 1"
  by (simp add: bounds_def)

lemma bounds_nth:
  assumes "1 \<le> n" "i \<le> nat n"
  shows "bounds h n ! i = (h * i) div nat n"
proof -
  consider "i = 0" | "0 < i" "i < nat n" | "i = nat n" using assms by linarith
  then show ?thesis
  proof cases
    case 1
    then show ?thesis by (simp add: bounds_def)
  next
    case 2
    have lt: "i - 1 < nat (n - 1)" using 2 by linarith
    have ix: "1 + int (i - 1) = int i" using 2 by linarith
    have "bounds h n ! i = (map (\<lambda>i. nat ((int h * i) div n)) [1..n - 1] @ [h]) ! (i - 1)"
      using 2 by (simp add: bounds_def nth_Cons')
    also have "\<dots> = map (\<lambda>i. nat ((int h * i) div n)) [1..n - 1] ! (i - 1)"
      using lt by (simp add: nth_append)
    also have "\<dots> = nat ((int h * int i) div n)"
      using lt ix by simp
    also have "\<dots> = (h * i) div nat n"
      using assms by (simp add: nat_div_distrib nat_mult_distrib)
    finally show ?thesis .
  next
    case 3
    have "bounds h n ! i = ([0] @ map (\<lambda>i. nat ((int h * i) div n)) [1..n - 1] @ [h]) !
        length ([0] @ map (\<lambda>i. nat ((int h * i) div n)) [1..n - 1])"
      using 3 assms nat_diff_distrib[of 1 n] unfolding bounds_def by simp
    also have "\<dots> = h"
      unfolding append_assoc[symmetric] nth_append_length ..
    finally show ?thesis using 3 assms by simp
  qed
qed

lemma bounds_mono:
  assumes "1 \<le> n" "i \<le> j" "j \<le> nat n"
  shows "bounds h n ! i \<le> bounds h n ! j"
  using assms by (simp add: bounds_nth div_le_mono)

lemma sorted_bounds: "1 \<le> n \<Longrightarrow> sorted (bounds h n)"
  by (simp add: sorted_iff_nth_mono length_bounds bounds_mono)

lemma bounds_le: "1 \<le> n \<Longrightarrow> i \<le> nat n \<Longrightarrow> bounds h n ! i \<le> h"
  using bounds_mono[of n i "nat n" h] bounds_nth[of n "nat n" h] by simp

lemma step_exists:
  fixes f :: "nat \<Rightarrow> nat"
  shows "f 0 \<le> y \<Longrightarrow> y < f m \<Longrightarrow> \<exists>i<m. f i \<le> y \<and> y < f (Suc i)"
proof (induction m)
  case 0
  then show ?case by simp
next
  case (Suc m)
  show ?case
  proof (cases "y < f m")
    case True
    with Suc obtain i where "i < m" "f i \<le> y" "y < f (Suc i)" by blast
    then show ?thesis using less_Suc_eq by blast
  next
    case False
    then show ?thesis using Suc.prems by (intro exI[of _ m]) simp
  qed
qed

lemma band_exists:
  assumes "1 \<le> n" "y < h"
  shows "\<exists>ry<nat n. bounds h n ! ry \<le> y \<and> y < bounds h n ! (ry + 1)"
proof -
  have "bounds h n ! 0 \<le> y" using assms by (simp add: bounds_nth)
  moreover have "y < bounds h n ! nat n" using assms by (simp add: bounds_nth)
  ultimately show ?thesis
    using step_exists[of "\<lambda>i. bounds h n ! i" y "nat n"] by simp
qed

lemma band_unique:
  assumes "1 \<le> n" "ry < nat n" "ry' < nat n"
    and "bounds h n ! ry \<le> y" "y < bounds h n ! (ry + 1)"
    and "bounds h n ! ry' \<le> y" "y < bounds h n ! (ry' + 1)"
  shows "ry = ry'"
proof (rule ccontr)
  assume "ry \<noteq> ry'"
  then consider "ry + 1 \<le> ry'" | "ry' + 1 \<le> ry" by linarith
  then show False
  proof cases
    case 1
    then have "bounds h n ! (ry + 1) \<le> bounds h n ! ry'"
      using assms by (intro bounds_mono) simp_all
    then show False using assms by linarith
  next
    case 2
    then have "bounds h n ! (ry' + 1) \<le> bounds h n ! ry"
      using assms by (intro bounds_mono) simp_all
    then show False using assms by linarith
  qed
qed

lemma set_cells: "set (cells n) = {0..<nat n} \<times> {0..<nat n}"
  by (auto simp: cells_def)

lemma bounds_floor:
  assumes "1 \<le> n" "i \<le> nat n"
  shows "int (bounds h n ! i) = \<lfloor>real h * real i / real_of_int n\<rfloor>"
proof -
  have "\<lfloor>real h * real i / real_of_int n\<rfloor> = \<lfloor>real_of_int (int h * int i) / real_of_int n\<rfloor>"
    by simp
  also have "\<dots> = (int h * int i) div n"
    by (rule floor_divide_of_int_eq)
  also have "\<dots> = int ((h * i) div nat n)"
    using assms by (simp add: zdiv_int)
  finally show ?thesis using assms by (simp add: bounds_nth)
qed

lemma cell_exists:
  assumes "1 \<le> n" "y < h" "x < w"
  shows "\<exists>c. c \<in> set (cells n) \<and> in_cell (bounds h n) (bounds w n) c y x"
proof -
  obtain ry where "ry < nat n" "bounds h n ! ry \<le> y" "y < bounds h n ! (ry + 1)"
    using band_exists[OF assms(1,2)] by blast
  moreover obtain rx where "rx < nat n" "bounds w n ! rx \<le> x" "x < bounds w n ! (rx + 1)"
    using band_exists[OF assms(1,3)] by blast
  ultimately have "(ry, rx) \<in> set (cells n) \<and> in_cell (bounds h n) (bounds w n) (ry, rx) y x"
    by (simp add: set_cells in_cell_def)
  then show ?thesis ..
qed

lemma cell_unique:
  assumes "1 \<le> n" "c \<in> set (cells n)" "d \<in> set (cells n)"
    and "in_cell (bounds h n) (bounds w n) c y x" "in_cell (bounds h n) (bounds w n) d y x"
  shows "c = d"
proof -
  have "fst c = fst d"
    using assms by (intro band_unique[of n _ _ h y]) (auto simp: set_cells in_cell_def)
  moreover have "snd c = snd d"
    using assms by (intro band_unique[of n _ _ w x]) (auto simp: set_cells in_cell_def)
  ultimately show ?thesis by (simp add: prod_eq_iff)
qed

lemma cell_inside:
  assumes "1 \<le> n" "c \<in> set (cells n)" "in_cell (bounds h n) (bounds w n) c y x"
  shows "y < h \<and> x < w"
proof -
  have "bounds h n ! (fst c + 1) \<le> h" "bounds w n ! (snd c + 1) \<le> w"
    using assms by (auto simp: set_cells intro!: bounds_le)
  then show ?thesis using assms(3) by (simp add: in_cell_def)
qed

text \<open>
  C2: for \<open>H \<ge> 1\<close>, \<open>W \<ge> 1\<close> and \<open>n \<ge> 1\<close> the boundary lists have \<open>n + 1\<close>
  entries, entry \<open>i\<close> is \<open>floor (H * i / n)\<close> (resp. \<open>W\<close>), they start at 0, end at
  \<open>H\<close> (resp. \<open>W\<close>) and are non-decreasing, every pixel of the \<open>H \<times> W\<close> rectangle lies
  in exactly one of the \<open>n\<^sup>2\<close> cells, and every cell lies inside the rectangle.
\<close>

theorem boundaries_partition:
  assumes "1 \<le> H" "1 \<le> W" "1 \<le> n"
  shows "length (bounds H n) = nat n + 1 \<and> length (bounds W n) = nat n + 1
    \<and> (\<forall>i\<le>nat n. int (bounds H n ! i) = \<lfloor>real H * real i / real_of_int n\<rfloor>
                  \<and> int (bounds W n ! i) = \<lfloor>real W * real i / real_of_int n\<rfloor>)
    \<and> bounds H n ! 0 = 0 \<and> bounds W n ! 0 = 0
    \<and> bounds H n ! nat n = H \<and> bounds W n ! nat n = W
    \<and> sorted (bounds H n) \<and> sorted (bounds W n)
    \<and> (\<forall>y<H. \<forall>x<W. \<exists>!c. c \<in> set (cells n) \<and> in_cell (bounds H n) (bounds W n) c y x)
    \<and> (\<forall>c\<in>set (cells n). \<forall>y x. in_cell (bounds H n) (bounds W n) c y x \<longrightarrow> y < H \<and> x < W)"
proof -
  have len: "length (bounds H n) = nat n + 1" "length (bounds W n) = nat n + 1"
    using assms(3) by (simp_all add: length_bounds)
  have fl: "\<forall>i\<le>nat n. int (bounds H n ! i) = \<lfloor>real H * real i / real_of_int n\<rfloor>
                  \<and> int (bounds W n ! i) = \<lfloor>real W * real i / real_of_int n\<rfloor>"
    using assms(3) by (simp add: bounds_floor)
  have ends: "bounds H n ! 0 = 0" "bounds W n ! 0 = 0" "bounds H n ! nat n = H" "bounds W n ! nat n = W"
    using assms(3) by (simp_all add: bounds_nth)
  have srt: "sorted (bounds H n)" "sorted (bounds W n)"
    using assms(3) by (simp_all add: sorted_bounds)
  have "\<exists>!c. c \<in> set (cells n) \<and> in_cell (bounds H n) (bounds W n) c y x"
    if "y < H" "x < W" for y x
    using cell_exists[OF assms(3) that] cell_unique[OF assms(3)] by blast
  then have tile: "\<forall>y<H. \<forall>x<W. \<exists>!c. c \<in> set (cells n) \<and> in_cell (bounds H n) (bounds W n) c y x"
    by blast
  have "y < H \<and> x < W"
    if "c \<in> set (cells n)" "in_cell (bounds H n) (bounds W n) c y x" for c y x
    using cell_inside[OF assms(3) that] .
  then have ins: "\<forall>c\<in>set (cells n). \<forall>y x. in_cell (bounds H n) (bounds W n) c y x \<longrightarrow> y < H \<and> x < W"
    by blast
  from len fl ends srt tile ins show ?thesis by (intro conjI)
qed

theorem boundaries_partition_witness:
  "bounds 10 3 = [0, 3, 6, 10] \<and> bounds 7 3 = [0, 2, 4, 7]
   \<and> (\<exists>!c. c \<in> set (cells 3) \<and> in_cell (bounds 10 3) (bounds 7 3) c 5 6)
   \<and> in_cell (bounds 10 3) (bounds 7 3) (1, 2) 5 6"
proof -
  have "(1::nat) \<le> 10" "(1::nat) \<le> 7" "(1::int) \<le> 3" by simp_all
  from boundaries_partition[OF this]
  have "\<exists>!c. c \<in> set (cells 3) \<and> in_cell (bounds 10 3) (bounds 7 3) c 5 6" by simp
  moreover have "bounds 10 3 = [0, 3, 6, 10]" "bounds 7 3 = [0, 2, 4, 7]"
    by (simp_all add: bounds_def upto.simps)
  ultimately show ?thesis by (simp add: in_cell_def)
qed

section \<open>Small grid orders and missing images\<close>

lemma create_mosaic_None: "create_mosaic e h None n k pool = (Inr None, h)"
  by (simp add: create_mosaic_def)

lemma create_mosaic_small:
  "n \<le> 1 \<Longrightarrow> create_mosaic e h (Some a) n k pool = (Inr (Some (length h)), h @ [h ! a])"
  by (simp add: create_mosaic_def np_copy_def alloc_def)

lemma cells_nonpos: "n \<le> 0 \<Longrightarrow> cells n = []"
  by (simp add: cells_def)

lemma extract_nonpos:
  "n \<le> 0 \<Longrightarrow> extract_tiles_from_image h (Some a) n = (Inr [], h)"
  by (simp add: extract_tiles_from_image_def cells_nonpos)

text \<open>
  C10: for a missing image (\<open>None\<close>) \<open>create_mosaic\<close> returns \<open>None\<close> without raising
  and without allocating anything, for every grid order, iteration count and pool.
\<close>

theorem missing_image_returns_none:
  "create_mosaic e h None n k pool = (Inr None, h)"
  by (rule create_mosaic_None)

text \<open>
  C4: for a grid order \<open>n \<le> 1\<close> (1, 0 or negative) \<open>create_mosaic\<close> returns a fresh
  buffer holding exactly the pixels of the input, whatever the iteration count and pool.
\<close>

theorem identity_below_two:
  assumes "n \<le> 1"
  shows "create_mosaic e h (Some a) n k pool = (Inr (Some (length h)), h @ [h ! a])
       \<and> (h @ [h ! a]) ! length h = h ! a"
  using assms by (simp add: create_mosaic_small)

theorem identity_below_two_witness:
  "(1::int) \<le> 1
   \<and> create_mosaic rev_env [quad] (Some 0) 1 3 (Some [Some 0]) = (Inr (Some 1), [quad, quad])
   \<and> create_mosaic rev_env [quad] (Some 0) (- 2) 0 None = (Inr (Some 1), [quad, quad])"
proof -
  have 1: "(1::int) \<le> 1" and 2: "(- 2::int) \<le> 1" by simp_all
  from identity_below_two[OF 1, of rev_env "[quad]" 0 3 "Some [Some 0]"]
    identity_below_two[OF 2, of rev_env "[quad]" 0 0 None]
  show ?thesis by simp
qed

text \<open>
  C7, as stated, fails: the extractor called with grid order 0 or -1 raises nothing; it
  returns an empty list of tiles.
\<close>

theorem partitioner_nonpositive_counterexample:
  "extract_tiles_from_image [dot] (Some 0) 0 = (Inr [], [dot])
   \<and> extract_tiles_from_image [dot] (Some 0) (- 1) = (Inr [], [dot])"
  by (simp add: extract_tiles_from_image_def cells_def)

text \<open>
  C7, amended: for a grid order \<open>n \<le> 0\<close> (0 and -1 among them) the extractor returns the
  empty list of tiles without raising and without allocating, and \<open>create_mosaic\<close>
  returns a copy of the input.
\<close>

theorem partitioner_nonpositive:
  assumes "n \<le> 0"
  shows "extract_tiles_from_image h (Some a) n = (Inr [], h)
       \<and> create_mosaic e h (Some a) n k pool = (Inr (Some (length h)), h @ [h ! a])"
  using assms by (simp add: extract_nonpos create_mosaic_small)

theorem partitioner_nonpositive_witness:
  "(- 1::int) \<le> 0 \<and> extract_tiles_from_image [dot] (Some 0) (- 1) = (Inr [], [dot])
   \<and> create_mosaic rev_env [dot] (Some 0) (- 1) 1 None = (Inr (Some 1), [dot, dot])"
proof -
  have "(- 1::int) \<le> 0" by simp
  from partitioner_nonpositive[OF this, of "[dot]" 0 rev_env 1 None]
  show ?thesis by simp
qed

section \<open>What a call leaves of the store\<close>

lemma grows_refl: "grows b h h"
  by (simp add: grows_def)

lemma grows_trans: "grows b h h1 \<Longrightarrow> grows b h1 h2 \<Longrightarrow> grows b h h2"
  by (simp add: grows_def)

lemma grows_nth: "grows b h h' \<Longrightarrow> a < b \<Longrightarrow> h' ! a = h ! a"
  unfolding grows_def by (metis nth_take)

lemma grows_length: "grows b h h' \<Longrightarrow> length h \<le> length h'"
  by (simp add: grows_def)

lemma grows_append: "b \<le> length h \<Longrightarrow> grows b h (h @ zs)"
  by (simp add: grows_def)

lemma grows_update: "b \<le> a \<Longrightarrow> grows b h (h[a := v])"
  by (simp add: grows_def)

lemma grows_alloc: "b \<le> length h \<Longrightarrow> grows b h (snd (alloc h v))"
  by (simp add: alloc_def grows_append)

lemma grows_setitem: "b \<le> dst \<Longrightarrow> grows b h (snd (setitem h dst y0 y1 x0 x1 src))"
  by (simp add: setitem_def Let_def grows_update grows_refl split: option.splits)

lemma grows_cv2_resize: "b \<le> length h \<Longrightarrow> grows b h (snd (cv2_resize e h src tw th))"
  by (simp add: cv2_resize_def Let_def alloc_def grows_append grows_refl)

lemma grows_fit_tile: "b \<le> length h \<Longrightarrow> grows b h (snd (fit_tile e h t th tw))"
  by (simp add: fit_tile_def grows_cv2_resize grows_refl)

lemma grows_place_tile:
  assumes "b \<le> length h" "b \<le> new_img"
  shows "grows b h (snd (place_tile e h new_img ys xs c t))"
proof -
  let ?r = "fit_tile e h t (ys ! (fst c + 1) - ys ! fst c) (xs ! (snd c + 1) - xs ! snd c)"
  have g: "grows b h (snd ?r)" using assms(1) by (rule grows_fit_tile)
  show ?thesis
  proof (cases ?r)
    case (Pair v h1)
    then have g1: "grows b h h1" using g by simp
    show ?thesis
    proof (cases v)
      case (Inl err)
      then show ?thesis using Pair g1 by (simp add: place_tile_def Let_def)
    next
      case (Inr t')
      have "grows b h1 (snd (setitem h1 new_img (ys ! fst c) (ys ! (fst c + 1)) (xs ! snd c) (xs ! (snd c + 1)) t'))"
        using assms(2) by (rule grows_setitem)
      then show ?thesis using Pair Inr g1 by (simp add: place_tile_def Let_def grows_trans)
    qed
  qed
qed

lemma grows_le: "grows b h h' \<Longrightarrow> b \<le> length h \<Longrightarrow> b \<le> length h'"
  by (simp add: grows_def)

lemma grows_shuffle_loop:
  "b \<le> length h \<Longrightarrow> b \<le> new_img \<Longrightarrow>
   grows b h (snd (shuffle_loop e h new_img ys xs tiles perm i cs))"
proof (induction cs arbitrary: h i)
  case Nil
  then show ?case by (simp add: grows_refl)
next
  case (Cons c cs)
  show ?case
  proof (cases "py_nth perm i")
    case (Inl err)
    then show ?thesis by (simp add: grows_refl)
  next
    case (Inr j)
    note j = this
    show ?thesis
    proof (cases "py_nth tiles j")
      case (Inl err)
      then show ?thesis using j by (simp add: grows_refl)
    next
      case (Inr t)
      have g: "grows b h (snd (place_tile e h new_img ys xs c t))"
        using Cons.prems by (rule grows_place_tile)
      show ?thesis
      proof (cases "place_tile e h new_img ys xs c t")
        case (Pair v h1)
        then have g1: "grows b h h1" using g by simp
        then have "b \<le> length h1" using Cons.prems(1) by (rule grows_le)
        then have "grows b h1 (snd (shuffle_loop e h1 new_img ys xs tiles perm (i + 1) cs))"
          using Cons.prems(2) by (rule Cons.IH)
        then show ?thesis using j Inr Pair g1
          by (cases v) (simp_all add: grows_trans)
      qed
    qed
  qed
qed

lemma grows_pool_loop:
  "b \<le> length h \<Longrightarrow> b \<le> new_img \<Longrightarrow>
   grows b h (snd (pool_loop e h new_img ys xs pts p k cs))"
proof (induction cs arbitrary: h k)
  case Nil
  then show ?case by (simp add: grows_refl)
next
  case (Cons c cs)
  show ?case
  proof (cases "pts = []")
    case True
    then show ?thesis by (simp add: grows_refl)
  next
    case False
    let ?t = "pts ! (pick e p k mod length pts)"
    have g: "grows b h (snd (place_tile e h new_img ys xs c ?t))"
      using Cons.prems by (rule grows_place_tile)
    show ?thesis
    proof (cases "place_tile e h new_img ys xs c ?t")
      case (Pair v h1)
      then have g1: "grows b h h1" using g by simp
      then have "b \<le> length h1" using Cons.prems(1) by (rule grows_le)
      then have "grows b h1 (snd (pool_loop e h1 new_img ys xs pts p (k + 1) cs))"
        using Cons.prems(2) by (rule Cons.IH)
      then show ?thesis using False Pair g1
        by (cases v) (simp_all add: grows_trans)
    qed
  qed
qed

lemma upt_head: "[n..<Suc (n + k)] = n # [Suc n..<Suc (n + k)]"
  using upt_rec[of n "Suc (n + k)"] by (simp del: upt_Suc)

lemma extract_loop_eq:
  "extract_loop h a ys xs cs acc =
     (acc @ [length h..<length h + length cs],
      h @ map (\<lambda>c. subarray (h ! a) (ys ! fst c) (ys ! (fst c + 1)) (xs ! snd c) (xs ! (snd c + 1))) cs)"
  if "a < length h"
  using that
proof (induction cs arbitrary: h acc)
  case Nil
  then show ?case by simp
next
  case (Cons c cs)
  obtain ry rx where c: "c = (ry, rx)" by (cases c)
  let ?v = "subarray (h ! a) (ys ! ry) (ys ! (ry + 1)) (xs ! rx) (xs ! (rx + 1))"
  have a': "a < length (h @ [?v])" using Cons.prems by simp
  have "extract_loop h a ys xs (c # cs) acc = extract_loop (h @ [?v]) a ys xs cs (acc @ [length h])"
    by (simp add: c alloc_def)
  also have "\<dots> = ((acc @ [length h]) @ [length (h @ [?v])..<length (h @ [?v]) + length cs],
      (h @ [?v]) @ map (\<lambda>c. subarray ((h @ [?v]) ! a) (ys ! fst c) (ys ! (fst c + 1)) (xs ! snd c) (xs ! (snd c + 1))) cs)"
    using a' by (rule Cons.IH)
  also have "\<dots> = (acc @ [length h..<length h + length (c # cs)],
      h @ map (\<lambda>c. subarray (h ! a) (ys ! fst c) (ys ! (fst c + 1)) (xs ! snd c) (xs ! (snd c + 1))) (c # cs))"
    using Cons.prems by (simp add: c nth_append upt_head del: upt_Suc)
  finally show ?case .
qed

lemma length_cells: "length (cells n) = nat n * nat n"
  by (simp add: cells_def length_concat comp_def sum_list_triv)

lemma length_cell_views: "length (cell_views a n) = nat n * nat n"
  by (simp add: cell_views_def length_cells)

lemma extract_eq:
  "a < length h \<Longrightarrow>
   extract_tiles_from_image h (Some a) n =
     (Inr [length h..<length h + nat n * nat n], h @ cell_views (h ! a) n)"
  by (simp add: extract_tiles_from_image_def extract_loop_eq cell_views_def length_cells Let_def)

lemma extract_None: "extract_tiles_from_image h None n = (Inl AttributeError, h)"
  by (simp add: extract_tiles_from_image_def)

lemma grows_extract_loop:
  "b \<le> length h \<Longrightarrow> grows b h (snd (extract_loop h a ys xs cs acc))"
proof (induction cs arbitrary: h acc)
  case Nil
  then show ?case by (simp add: grows_refl)
next
  case (Cons c cs)
  obtain ry rx where c: "c = (ry, rx)" by (cases c)
  let ?v = "subarray (h ! a) (ys ! ry) (ys ! (ry + 1)) (xs ! rx) (xs ! (rx + 1))"
  have g1: "grows b h (h @ [?v])" using Cons.prems by (rule grows_append)
  have "b \<le> length (h @ [?v])" using Cons.prems by simp
  then have "grows b (h @ [?v]) (snd (extract_loop (h @ [?v]) a ys xs cs (acc @ [length h])))"
    by (rule Cons.IH)
  with g1 show ?case by (simp add: c alloc_def grows_trans)
qed

lemma grows_extract:
  "b \<le> length h \<Longrightarrow> grows b h (snd (extract_tiles_from_image h img n))"
proof (cases img)
  case None
  then show ?thesis by (simp add: extract_None grows_refl)
next
  case (Some a)
  assume b: "b \<le> length h"
  let ?ys = "bounds (shape0 (h ! a)) n" and ?xs = "bounds (shape1 (h ! a)) n"
  have "grows b h (snd (extract_loop h a ?ys ?xs (cells n) []))"
    using b by (rule grows_extract_loop)
  then show ?thesis
    by (cases "extract_loop h a ?ys ?xs (cells n) []")
       (simp add: Some extract_tiles_from_image_def Let_def)
qed

lemma grows_collect_pool:
  "b \<le> length h \<Longrightarrow> grows b h (snd (collect_pool h ps n acc))"
proof (induction ps arbitrary: h acc)
  case Nil
  then show ?case by (simp add: grows_refl)
next
  case (Cons p ps)
  have g: "grows b h (snd (extract_tiles_from_image h p n))"
    using Cons.prems by (rule grows_extract)
  show ?case
  proof (cases "extract_tiles_from_image h p n")
    case (Pair v h1)
    then have g1: "grows b h h1" using g by simp
    then have b1: "b \<le> length h1" using Cons.prems by (rule grows_le)
    show ?thesis
    proof (cases v)
      case (Inl err)
      have "grows b h1 (snd (collect_pool h1 ps n acc))" using b1 by (rule Cons.IH)
      then show ?thesis using Pair Inl g1 by (simp add: grows_trans)
    next
      case (Inr tiles)
      have "grows b h1 (snd (collect_pool h1 ps n (acc @ tiles)))" using b1 by (rule Cons.IH)
      then show ?thesis using Pair Inr g1 by (simp add: grows_trans)
    qed
  qed
qed

lemma grows_prepare_pool:
  "b \<le> length h \<Longrightarrow> grows b h (snd (prepare_pool h pool n))"
proof (cases pool)
  case None
  then show ?thesis by (simp add: prepare_pool_def grows_refl)
next
  case (Some ps)
  assume "b \<le> length h"
  then have "grows b h (snd (collect_pool h ps n []))" by (rule grows_collect_pool)
  then show ?thesis
    by (cases "collect_pool h ps n []") (simp add: Some prepare_pool_def grows_refl)
qed

lemma grows_mosaic_pass:
  assumes "b \<le> length h"
  shows "grows b h (snd (mosaic_pass e n img ys xs pool_tiles p h out))"
proof -
  let ?h1 = "h @ [zeros (shape0 (h ! img)) (shape1 (h ! img))]"
  have z: "np_zeros_like h img = (length h, ?h1)" by (simp add: np_zeros_like_def alloc_def)
  have g1: "grows b h ?h1" using assms by (rule grows_append)
  have b1: "b \<le> length ?h1" using assms by simp
  show ?thesis
  proof (cases pool_tiles)
    case None
    have g2: "grows b ?h1 (snd (extract_tiles_from_image ?h1 (Some out) n))"
      using b1 by (rule grows_extract)
    show ?thesis
    proof (cases "extract_tiles_from_image ?h1 (Some out) n")
      case (Pair v h2)
      then have g2': "grows b ?h1 h2" using g2 by simp
      then have b2: "b \<le> length h2" using b1 by (rule grows_le)
      show ?thesis
      proof (cases v)
        case (Inl err)
        then show ?thesis using None z Pair g1 g2' by (simp add: mosaic_pass_def grows_trans)
      next
        case (Inr tiles)
        let ?l = "shuffle_loop e h2 (length h) ys xs tiles (shuffle e p [0..<length tiles]) 0 (cells n)"
        have "grows b h2 (snd ?l)" using b2 assms by (rule grows_shuffle_loop)
        then have "grows b h (snd ?l)" using g1 g2' grows_trans by blast
        then show ?thesis using None z Pair Inr
          by (auto simp: mosaic_pass_def split: prod.splits sum.splits)
      qed
    qed
  next
    case (Some pts)
    let ?l = "pool_loop e ?h1 (length h) ys xs pts p 0 (cells n)"
    have "grows b ?h1 (snd ?l)" using b1 assms by (rule grows_pool_loop)
    then have "grows b h (snd ?l)" using g1 grows_trans by blast
    then show ?thesis using Some z
      by (auto simp: mosaic_pass_def split: prod.splits sum.splits)
  qed
qed

lemma grows_run_passes:
  "b \<le> length h \<Longrightarrow> grows b h (snd (run_passes e n img ys xs pool_tiles k p h out))"
proof (induction k arbitrary: p h out)
  case 0
  then show ?case by (simp add: grows_refl)
next
  case (Suc k)
  have g: "grows b h (snd (mosaic_pass e n img ys xs pool_tiles p h out))"
    using Suc.prems by (rule grows_mosaic_pass)
  show ?case
  proof (cases "mosaic_pass e n img ys xs pool_tiles p h out")
    case (Pair v h1)
    then have g1: "grows b h h1" using g by simp
    then have b1: "b \<le> length h1" using Suc.prems by (rule grows_le)
    show ?thesis
    proof (cases v)
      case (Inl err)
      then show ?thesis using Pair g1 by simp
    next
      case (Inr out')
      have "grows b h1 (snd (run_passes e n img ys xs pool_tiles k (Suc p) h1 out'))"
        using b1 by (rule Suc.IH)
      then show ?thesis using Pair Inr g1 by (simp add: grows_trans)
    qed
  qed
qed

lemma grows_create_mosaic:
  assumes "b \<le> length h"
  shows "grows b h (snd (create_mosaic e h img n k pool))"
proof (cases img)
  case None
  then show ?thesis by (simp add: create_mosaic_def grows_refl)
next
  case (Some a)
  show ?thesis
  proof (cases "n \<le> 1")
    case True
    then show ?thesis using assms Some
      by (simp add: create_mosaic_def np_copy_def alloc_def grows_append)
  next
    case False
    obtain pt h1 where pp: "prepare_pool h pool n = (pt, h1)" by (cases "prepare_pool h pool n")
    have g1: "grows b h h1" using grows_prepare_pool[OF assms, of pool n] pp by simp
    then have b1: "b \<le> length h1" using assms by (rule grows_le)
    let ?h2 = "h1 @ [h1 ! a]"
    have g2: "grows b h1 ?h2" using b1 by (rule grows_append)
    have b2: "b \<le> length ?h2" using b1 by simp
    let ?r = "run_passes e n a (bounds (shape0 (h ! a)) n) (bounds (shape1 (h ! a)) n) pt
                (nat (max 1 k)) 0 ?h2 (length h1)"
    have "grows b ?h2 (snd ?r)" using b2 by (rule grows_run_passes)
    then have "grows b h (snd ?r)" using g1 g2 grows_trans by blast
    then show ?thesis using False Some pp
      by (auto simp: create_mosaic_def np_copy_def alloc_def split: prod.splits sum.splits)
  qed
qed

section \<open>Shapes of the arrays in the store\<close>

lemma keeps_refl: "keeps h h"
  by (simp add: keeps_def)

lemma keeps_trans: "keeps h h1 \<Longrightarrow> keeps h1 h2 \<Longrightarrow> keeps h h2"
  by (auto simp: keeps_def)

lemma keeps_length: "keeps h h' \<Longrightarrow> a < length h \<Longrightarrow> a < length h'"
  by (simp add: keeps_def)

lemma keeps_append: "(list_all wf_array h \<Longrightarrow> wf_array v) \<Longrightarrow> keeps h (h @ [v])"
  by (auto simp: keeps_def nth_append)

lemma length_get_slice: "length (get_slice i j xs) = min j (length xs) - min i (length xs)"
  by (simp add: get_slice_def)

lemma set_get_slice: "set (get_slice i j xs) \<subseteq> set xs"
  unfolding get_slice_def using set_take_subset set_drop_subset by fast

lemma length_set_slice:
  "length new = min j (length xs) - min i (length xs) \<Longrightarrow> length (set_slice i j xs new) = length xs"
  by (simp add: set_slice_def)

lemma set_set_slice:
  "set (set_slice i j xs new) \<subseteq> set (take i xs) \<union> set new \<union> set (drop (max i j) xs)"
  by (auto simp: set_slice_def)

lemma wf_subarray: "wf_array a \<Longrightarrow> wf_array (subarray a y0 y1 x0 x1)"
  using set_get_slice[of y0 y1 "rows a"]
  by (auto simp: wf_array_def subarray_def length_get_slice list_all_iff)

lemma wf_zeros: "wf_array (zeros m n)"
  by (simp add: wf_array_def zeros_def list_all_iff)

lemma wf_resized:
  "wf_array \<lparr>shape0 = th, shape1 = tw, rows = map (\<lambda>y. map (f y) [0..<tw]) [0..<th]\<rparr>"
  by (simp add: wf_array_def list_all_iff)

lemma broadcast_wf:
  assumes "wf_array t" "broadcast_to t th tw = Some new"
  shows "length new = th \<and> (\<forall>r\<in>set new. length r = tw)"
proof -
  let ?rs = "map (\<lambda>r. if shape1 t = tw then r else replicate tw (hd r)) (rows t)"
  have c: "(shape0 t = th \<or> shape0 t = 1) \<and> (shape1 t = tw \<or> shape1 t = 1)"
    and new: "new = (if shape0 t = th then ?rs else replicate th (hd ?rs))"
    using assms(2) by (auto simp: broadcast_to_def Let_def split: if_splits)
  have rs: "length ?rs = shape0 t" "\<forall>r\<in>set ?rs. length r = tw"
    using assms(1) by (auto simp: wf_array_def list_all_iff)
  show ?thesis
  proof (cases "shape0 t = th")
    case True
    then show ?thesis using new rs by simp
  next
    case False
    then have "?rs \<noteq> []" using c rs(1) by auto
    then have "hd ?rs \<in> set ?rs" by (rule hd_in_set)
    then have "length (hd ?rs) = tw" using rs(2) by blast
    then show ?thesis using new False by simp
  qed
qed

lemma broadcast_same: "broadcast_to t (shape0 t) (shape1 t) = Some (rows t)"
  by (simp add: broadcast_to_def)

lemma wf_written:
  assumes d: "wf_array d"
    and new: "length new = min y1 (shape0 d) - min y0 (shape0 d)"
             "\<forall>r\<in>set new. length r = min x1 (shape1 d) - min x0 (shape1 d)"
  shows "wf_array (d\<lparr>rows := set_slice y0 y1 (rows d)
            (map2 (\<lambda>r n. set_slice x0 x1 r n) (get_slice y0 y1 (rows d)) new)\<rparr>)"
proof -
  let ?mid = "map2 (\<lambda>r n. set_slice x0 x1 r n) (get_slice y0 y1 (rows d)) new"
  have len: "length (rows d) = shape0 d" and wid: "\<forall>r\<in>set (rows d). length r = shape1 d"
    using d by (simp_all add: wf_array_def list_all_iff)
  have lm: "length ?mid = min y1 (length (rows d)) - min y0 (length (rows d))"
    using new(1) len by (simp add: length_get_slice)
  have wm: "length r = shape1 d" if "r \<in> set ?mid" for r
  proof -
    from that obtain a b where ab: "(a, b) \<in> set (zip (get_slice y0 y1 (rows d)) new)"
      and r: "r = set_slice x0 x1 a b" by auto
    have "a \<in> set (rows d)" using ab set_get_slice[of y0 y1 "rows d"] by (auto dest: set_zip_leftD)
    then have la: "length a = shape1 d" using wid by blast
    have "b \<in> set new" using ab by (auto dest: set_zip_rightD)
    then have "length b = min x1 (length a) - min x0 (length a)" using new(2) la by simp
    then show ?thesis using r la by (simp add: length_set_slice)
  qed
  have "length (set_slice y0 y1 (rows d) ?mid) = shape0 d"
    using lm len by (simp add: length_set_slice)
  moreover have "length r = shape1 d" if "r \<in> set (set_slice y0 y1 (rows d) ?mid)" for r
  proof -
    from that consider "r \<in> set (take y0 (rows d))" | "r \<in> set ?mid"
      | "r \<in> set (drop (max y0 y1) (rows d))"
      using set_set_slice[of y0 y1 "rows d" ?mid] by blast
    then show ?thesis
    proof cases
      case 1
      then show ?thesis using wid by (auto dest: in_set_takeD)
    next
      case 2
      then show ?thesis by (rule wm)
    next
      case 3
      then show ?thesis using wid by (auto dest: in_set_dropD)
    qed
  qed
  ultimately show ?thesis by (simp add: wf_array_def list_all_iff)
qed

lemma keeps_setitem:
  assumes "src < length h"
  shows "keeps h (snd (setitem h dst y0 y1 x0 x1 src))"
proof (cases "broadcast_to (h ! src) (min y1 (shape0 (h ! dst)) - min y0 (shape0 (h ! dst)))
                (min x1 (shape1 (h ! dst)) - min x0 (shape1 (h ! dst)))")
  case None
  then show ?thesis by (simp add: setitem_def Let_def keeps_refl)
next
  case (Some new)
  let ?d = "h ! dst"
  let ?d' = "?d\<lparr>rows := set_slice y0 y1 (rows ?d)
            (map2 (\<lambda>r n. set_slice x0 x1 r n) (get_slice y0 y1 (rows ?d)) new)\<rparr>"
  have res: "snd (setitem h dst y0 y1 x0 x1 src) = h[dst := ?d']"
    using Some by (simp add: setitem_def Let_def)
  have shp: "shape0 (h[dst := ?d'] ! a) = shape0 (h ! a) \<and> shape1 (h[dst := ?d'] ! a) = shape1 (h ! a)"
    if "a < length h" for a
    using that by (cases "a = dst") simp_all
  have wf: "list_all wf_array (h[dst := ?d'])" if all: "list_all wf_array h"
  proof (cases "dst < length h")
    case True
    have "wf_array (h ! src)" "wf_array ?d" using all assms True by (simp_all add: list_all_length)
    then have "wf_array ?d'"
      using broadcast_wf[OF _ Some] by (intro wf_written) simp_all
    then show ?thesis using all True by (simp add: list_all_length nth_list_update)
  next
    case False
    then show ?thesis using all by (simp add: list_update_beyond)
  qed
  show ?thesis unfolding res keeps_def using shp wf by simp
qed

lemma keeps_cv2_resize: "keeps h (snd (cv2_resize e h src tw th))"
  by (simp add: cv2_resize_def Let_def alloc_def keeps_refl keeps_append wf_resized)

lemma cv2_resize_valid:
  "cv2_resize e h src tw th = (Inr t, h') \<Longrightarrow> t < length h'"
  by (auto simp: cv2_resize_def Let_def alloc_def split: if_splits)

lemma fit_tile_valid:
  "src < length h \<Longrightarrow> fit_tile e h src th tw = (Inr t, h') \<Longrightarrow> t < length h'"
  by (auto simp: fit_tile_def cv2_resize_valid split: if_splits)

lemma keeps_fit_tile: "keeps h (snd (fit_tile e h src th tw))"
  by (simp add: fit_tile_def keeps_cv2_resize keeps_refl)

lemma keeps_place_tile:
  assumes "t < length h"
  shows "keeps h (snd (place_tile e h new_img ys xs c t))"
proof -
  let ?r = "fit_tile e h t (ys ! (fst c + 1) - ys ! fst c) (xs ! (snd c + 1) - xs ! snd c)"
  have g: "keeps h (snd ?r)" by (rule keeps_fit_tile)
  show ?thesis
  proof (cases ?r)
    case (Pair v h1)
    then have g1: "keeps h h1" using g by simp
    show ?thesis
    proof (cases v)
      case (Inl err)
      then show ?thesis using Pair g1 by (simp add: place_tile_def Let_def)
    next
      case (Inr t')
      then have "t' < length h1" using Pair assms fit_tile_valid by blast
      then have "keeps h1 (snd (setitem h1 new_img (ys ! fst c) (ys ! (fst c + 1)) (xs ! snd c) (xs ! (snd c + 1)) t'))"
        by (rule keeps_setitem)
      then show ?thesis using Pair Inr g1 by (simp add: place_tile_def Let_def keeps_trans)
    qed
  qed
qed

lemma keeps_le: "keeps h h' \<Longrightarrow> length h \<le> length h'"
  by (simp add: keeps_def)

lemma keeps_shape:
  "keeps h h' \<Longrightarrow> a < length h \<Longrightarrow>
   shape0 (h' ! a) = shape0 (h ! a) \<and> shape1 (h' ! a) = shape1 (h ! a)"
  by (simp add: keeps_def)

lemma keeps_wf: "keeps h h' \<Longrightarrow> list_all wf_array h \<Longrightarrow> list_all wf_array h'"
  by (simp add: keeps_def)

lemma keeps_appends: "(list_all wf_array h \<Longrightarrow> list_all wf_array zs) \<Longrightarrow> keeps h (h @ zs)"
  by (auto simp: keeps_def nth_append)

lemma valid_mono: "\<forall>t\<in>set ts. t < length h \<Longrightarrow> keeps h h' \<Longrightarrow> \<forall>t\<in>set ts. t < length h'"
  using keeps_length by blast

lemma keeps_shuffle_loop:
  "\<forall>t\<in>set tiles. t < length h \<Longrightarrow>
   keeps h (snd (shuffle_loop e h new_img ys xs tiles perm i cs))"
proof (induction cs arbitrary: h i)
  case Nil
  then show ?case by (simp add: keeps_refl)
next
  case (Cons c cs)
  show ?case
  proof (cases "py_nth perm i")
    case (Inl err)
    then show ?thesis by (simp add: keeps_refl)
  next
    case (Inr j)
    note j = this
    show ?thesis
    proof (cases "py_nth tiles j")
      case (Inl err)
      then show ?thesis using j by (simp add: keeps_refl)
    next
      case (Inr t)
      then have "t \<in> set tiles" by (auto simp: py_nth_def split: if_splits)
      then have "t < length h" using Cons.prems by blast
      then have g: "keeps h (snd (place_tile e h new_img ys xs c t))"
        by (rule keeps_place_tile)
      show ?thesis
      proof (cases "place_tile e h new_img ys xs c t")
        case (Pair v h1)
        then have g1: "keeps h h1" using g by simp
        with Cons.prems have "\<forall>t\<in>set tiles. t < length h1" by (rule valid_mono)
        then have "keeps h1 (snd (shuffle_loop e h1 new_img ys xs tiles perm (i + 1) cs))"
          by (rule Cons.IH)
        then show ?thesis using j Inr Pair g1
          by (cases v) (simp_all add: keeps_trans)
      qed
    qed
  qed
qed

lemma keeps_pool_loop:
  "\<forall>t\<in>set pts. t < length h \<Longrightarrow>
   keeps h (snd (pool_loop e h new_img ys xs pts p k cs))"
proof (induction cs arbitrary: h k)
  case Nil
  then show ?case by (simp add: keeps_refl)
next
  case (Cons c cs)
  show ?case
  proof (cases "pts = []")
    case True
    then show ?thesis by (simp add: keeps_refl)
  next
    case False
    let ?t = "pts ! (pick e p k mod length pts)"
    have "?t \<in> set pts" using False by simp
    then have "?t < length h" using Cons.prems by blast
    then have g: "keeps h (snd (place_tile e h new_img ys xs c ?t))"
      by (rule keeps_place_tile)
    show ?thesis
    proof (cases "place_tile e h new_img ys xs c ?t")
      case (Pair v h1)
      then have g1: "keeps h h1" using g by simp
      with Cons.prems have "\<forall>t\<in>set pts. t < length h1" by (rule valid_mono)
      then have "keeps h1 (snd (pool_loop e h1 new_img ys xs pts p (k + 1) cs))"
        by (rule Cons.IH)
      then show ?thesis using False Pair g1
        by (cases v) (simp_all add: keeps_trans)
    qed
  qed
qed

lemma wf_cell_views: "wf_array a \<Longrightarrow> list_all wf_array (cell_views a n)"
  by (simp add: cell_views_def list_all_iff wf_subarray)

lemma keeps_extract:
  assumes "\<forall>a. img = Some a \<longrightarrow> a < length h"
  shows "keeps h (snd (extract_tiles_from_image h img n))"
proof (cases img)
  case None
  then show ?thesis by (simp add: extract_None keeps_refl)
next
  case (Some a)
  then have a: "a < length h" using assms by simp
  have "keeps h (h @ cell_views (h ! a) n)"
    using a by (intro keeps_appends wf_cell_views) (simp add: list_all_length)
  then show ?thesis using Some a by (simp add: extract_eq)
qed

lemma collect_pool_ok:
  assumes "list_all (\<lambda>p. case p of None \<Rightarrow> True | Some a \<Rightarrow> a < length h) ps"
    and "\<forall>t\<in>set acc. t < length h"
  shows "keeps h (snd (collect_pool h ps n acc))
       \<and> (\<forall>t\<in>set (fst (collect_pool h ps n acc)). t < length (snd (collect_pool h ps n acc)))"
  using assms
proof (induction ps arbitrary: h acc)
  case Nil
  then show ?case by (simp add: keeps_refl)
next
  case (Cons p ps)
  show ?case
  proof (cases p)
    case None
    have "list_all (\<lambda>p. case p of None \<Rightarrow> True | Some a \<Rightarrow> a < length h) ps"
      using Cons.prems(1) by simp
    from Cons.IH[OF this Cons.prems(2)] show ?thesis
      by (simp add: None extract_None)
  next
    case (Some a)
    then have a: "a < length h" using Cons.prems(1) by simp
    let ?h1 = "h @ cell_views (h ! a) n"
    let ?ts = "[length h..<length h + nat n * nat n]"
    have k1: "keeps h ?h1"
      using keeps_extract[of "Some a" h n] a by (simp add: extract_eq)
    have v1: "list_all (\<lambda>p. case p of None \<Rightarrow> True | Some a \<Rightarrow> a < length ?h1) ps"
      using Cons.prems(1) by (auto simp: list_all_iff split: option.splits)
    have v2: "\<forall>t\<in>set (acc @ ?ts). t < length ?h1"
      using Cons.prems(2) by (auto simp: length_cell_views)
    from Cons.IH[OF v1 v2] k1 show ?thesis
      using a by (auto simp: Some extract_eq intro: keeps_trans)
  qed
qed

lemma prepare_pool_ok:
  assumes "valid_pool h pool"
  shows "keeps h (snd (prepare_pool h pool n))
       \<and> (\<forall>pts. fst (prepare_pool h pool n) = Some pts \<longrightarrow>
             pts \<noteq> [] \<and> (\<forall>t\<in>set pts. t < length (snd (prepare_pool h pool n))))"
proof (cases pool)
  case None
  then show ?thesis by (simp add: prepare_pool_def keeps_refl)
next
  case (Some ps)
  then have "list_all (\<lambda>p. case p of None \<Rightarrow> True | Some a \<Rightarrow> a < length h) ps"
    using assms by (simp add: valid_pool_def)
  from collect_pool_ok[OF this, of "[]" n] show ?thesis
    by (cases "collect_pool h ps n []") (auto simp: Some prepare_pool_def keeps_refl)
qed

lemma mosaic_pass_ok:
  assumes out: "out < length h"
    and pts: "\<forall>pts. pool_tiles = Some pts \<longrightarrow> (\<forall>t\<in>set pts. t < length h)"
  shows "keeps (h @ [zeros (shape0 (h ! img)) (shape1 (h ! img))])
           (snd (mosaic_pass e n img ys xs pool_tiles p h out))"
proof -
  let ?h1 = "h @ [zeros (shape0 (h ! img)) (shape1 (h ! img))]"
  have z: "np_zeros_like h img = (length h, ?h1)" by (simp add: np_zeros_like_def alloc_def)
  show ?thesis
  proof (cases pool_tiles)
    case None
    have o1: "out < length ?h1" using out by simp
    let ?h2 = "?h1 @ cell_views (?h1 ! out) n"
    let ?ts = "[length ?h1..<length ?h1 + nat n * nat n]"
    have ex: "extract_tiles_from_image ?h1 (Some out) n = (Inr ?ts, ?h2)"
      using o1 by (rule extract_eq)
    have k2: "keeps ?h1 ?h2" using keeps_extract[of "Some out" ?h1 n] o1 ex by simp
    have "\<forall>t\<in>set ?ts. t < length ?h2" by (auto simp: length_cell_views)
    then have "keeps ?h2 (snd (shuffle_loop e ?h2 (length h) ys xs ?ts (shuffle e p [0..<length ?ts]) 0 (cells n)))"
      by (rule keeps_shuffle_loop)
    with k2 have "keeps ?h1 (snd (shuffle_loop e ?h2 (length h) ys xs ?ts (shuffle e p [0..<length ?ts]) 0 (cells n)))"
      by (rule keeps_trans)
    then show ?thesis using None z ex
      by (auto simp: mosaic_pass_def split: prod.splits sum.splits)
  next
    case (Some pts')
    then have "\<forall>t\<in>set pts'. t < length ?h1" using pts by auto
    then have "keeps ?h1 (snd (pool_loop e ?h1 (length h) ys xs pts' p 0 (cells n)))"
      by (rule keeps_pool_loop)
    then show ?thesis using Some z
      by (auto simp: mosaic_pass_def split: prod.splits sum.splits)
  qed
qed

lemma mosaic_pass_out:
  "mosaic_pass e n img ys xs pool_tiles p h out = (Inr out', h') \<Longrightarrow> out' = length h"
  by (auto simp: mosaic_pass_def np_zeros_like_def alloc_def split: option.splits prod.splits sum.splits)

lemma run_passes_ok:
  assumes "out < length h" "img < length h"
    and "\<forall>pts. pool_tiles = Some pts \<longrightarrow> (\<forall>t\<in>set pts. t < length h)"
  shows "keeps h (snd (run_passes e n img ys xs pool_tiles k p h out))
       \<and> (\<forall>out' h'. 0 < k \<and> run_passes e n img ys xs pool_tiles k p h out = (Inr out', h') \<longrightarrow>
             length h \<le> out' \<and> out' < length h'
             \<and> shape0 (h' ! out') = shape0 (h ! img) \<and> shape1 (h' ! out') = shape1 (h ! img))"
  using assms
proof (induction k arbitrary: p h out)
  case 0
  then show ?case by (simp add: keeps_refl)
next
  case (Suc k)
  let ?z = "zeros (shape0 (h ! img)) (shape1 (h ! img))"
  let ?h1 = "h @ [?z]"
  have k0: "keeps h ?h1" by (intro keeps_append wf_zeros)
  have k1: "keeps ?h1 (snd (mosaic_pass e n img ys xs pool_tiles p h out))"
    using Suc.prems(1,3) by (rule mosaic_pass_ok)
  show ?case
  proof (cases "mosaic_pass e n img ys xs pool_tiles p h out")
    case (Pair v h1)
    then have k1': "keeps ?h1 h1" using k1 by simp
    with k0 have kh: "keeps h h1" by (rule keeps_trans)
    show ?thesis
    proof (cases v)
      case (Inl err)
      then show ?thesis using Pair kh by simp
    next
      case (Inr o1)
      then have o1: "o1 = length h" using Pair mosaic_pass_out by blast
      have lt: "o1 < length h1" using o1 keeps_le[OF k1'] by simp
      have sh: "shape0 (h1 ! o1) = shape0 (h ! img) \<and> shape1 (h1 ! o1) = shape1 (h ! img)"
        using keeps_shape[OF k1', of o1] o1 by (simp add: zeros_def)
      have i1: "img < length h1" using Suc.prems(2) kh keeps_length by blast
      have shi: "shape0 (h1 ! img) = shape0 (h ! img) \<and> shape1 (h1 ! img) = shape1 (h ! img)"
        using keeps_shape[OF kh Suc.prems(2)] .
      have p1: "\<forall>pts. pool_tiles = Some pts \<longrightarrow> (\<forall>t\<in>set pts. t < length h1)"
        using Suc.prems(3) kh keeps_length by blast
      note IH = Suc.IH[OF lt i1 p1, of "Suc p"]
      have run: "run_passes e n img ys xs pool_tiles (Suc k) p h out
                 = run_passes e n img ys xs pool_tiles k (Suc p) h1 o1"
        using Pair Inr by simp
      have A: "keeps h (snd (run_passes e n img ys xs pool_tiles (Suc k) p h out))"
        unfolding run using kh IH keeps_trans by blast
      have B: "length h \<le> out' \<and> out' < length h'
             \<and> shape0 (h' ! out') = shape0 (h ! img) \<and> shape1 (h' ! out') = shape1 (h ! img)"
        if r: "run_passes e n img ys xs pool_tiles k (Suc p) h1 o1 = (Inr out', h')" for out' h'
      proof (cases k)
        case 0
        then have "out' = o1" "h' = h1" using r by simp_all
        then show ?thesis using o1 lt sh by simp
      next
        case (Suc k')
        then have "0 < k" by simp
        with IH r have "length h1 \<le> out' \<and> out' < length h'
             \<and> shape0 (h' ! out') = shape0 (h1 ! img) \<and> shape1 (h' ! out') = shape1 (h1 ! img)"
          by blast
        then show ?thesis using shi keeps_le[OF kh] by simp
      qed
      show ?thesis using A B unfolding run by blast
    qed
  qed
qed

lemma snd_wrap:
  "snd (case r of (Inl err, h3) \<Rightarrow> (Inl err, h3) | (Inr out', h3) \<Rightarrow> (Inr (f out'), h3)) = snd r"
  by (auto split: prod.splits sum.splits)

lemma wrap_Inr:
  "(case r of (Inl err, h3) \<Rightarrow> (Inl err, h3) | (Inr out', h3) \<Rightarrow> (Inr (Some out'), h3)) = (Inr x, h')
   \<Longrightarrow> \<exists>out'. r = (Inr out', h') \<and> x = Some out'"
  by (auto split: prod.splits sum.splits)

lemma create_mosaic_big:
  assumes "\<not> n \<le> 1" and pp: "prepare_pool h pool n = (pt, h1)"
  shows "create_mosaic e h (Some a) n k pool =
      (case run_passes e n a (bounds (shape0 (h ! a)) n) (bounds (shape1 (h ! a)) n) pt
                (nat (max 1 k)) 0 (h1 @ [h1 ! a]) (length h1) of
         (Inl err, h3) \<Rightarrow> (Inl err, h3) | (Inr out', h3) \<Rightarrow> (Inr (Some out'), h3))"
  using assms by (simp add: create_mosaic_def np_copy_def alloc_def)

lemma create_mosaic_ok:
  assumes a: "a < length h" and vp: "valid_pool h pool"
  shows "keeps h (snd (create_mosaic e h (Some a) n k pool))
       \<and> (\<forall>r h'. create_mosaic e h (Some a) n k pool = (Inr r, h') \<longrightarrow>
            (\<exists>out. r = Some out \<and> length h \<le> out \<and> out < length h'
               \<and> shape0 (h' ! out) = shape0 (h ! a) \<and> shape1 (h' ! out) = shape1 (h ! a)))"
proof (cases "n \<le> 1")
  case True
  have "keeps h (h @ [h ! a])"
    using a by (intro keeps_append) (simp add: list_all_length)
  moreover have "create_mosaic e h (Some a) n k pool = (Inr (Some (length h)), h @ [h ! a])"
    using True by (simp add: create_mosaic_def np_copy_def alloc_def)
  ultimately show ?thesis by (simp add: nth_append)
next
  case False
  obtain pt h1 where pp: "prepare_pool h pool n = (pt, h1)" by (cases "prepare_pool h pool n")
  have k1: "keeps h h1"
    and pts: "\<forall>pts. pt = Some pts \<longrightarrow> (\<forall>t\<in>set pts. t < length h1)"
    using prepare_pool_ok[OF vp, of n] pp by simp_all
  have a1: "a < length h1" using k1 a by (rule keeps_length)
  define h2 where "h2 = h1 @ [h1 ! a]"
  have k2: "keeps h1 h2" unfolding h2_def using a1 by (intro keeps_append) (simp add: list_all_length)
  have kh2: "keeps h h2" using k1 k2 by (rule keeps_trans)
  have s2: "shape0 (h2 ! a) = shape0 (h ! a) \<and> shape1 (h2 ! a) = shape1 (h ! a)"
    using keeps_shape[OF kh2 a] .
  define R where "R = run_passes e n a (bounds (shape0 (h ! a)) n) (bounds (shape1 (h ! a)) n) pt
                (nat (max 1 k)) 0 h2 (length h1)"
  have l2: "length h1 < length h2" "a < length h2" using a1 by (simp_all add: h2_def)
  have p2: "\<forall>pts. pt = Some pts \<longrightarrow> (\<forall>t\<in>set pts. t < length h2)"
    using pts by (auto simp: less_Suc_eq h2_def)
  note rp = run_passes_ok[OF l2 p2, of e n "bounds (shape0 (h ! a)) n" "bounds (shape1 (h ! a)) n"
      "nat (max 1 k)" 0, folded R_def]
  have kR: "keeps h2 (snd R)" using rp by (rule conjunct1)
  have cm: "create_mosaic e h (Some a) n k pool =
      (case R of (Inl err, h3) \<Rightarrow> (Inl err, h3) | (Inr out', h3) \<Rightarrow> (Inr (Some out'), h3))"
    unfolding R_def h2_def using False pp by (rule create_mosaic_big)
  have "keeps h (snd R)" using kh2 kR by (rule keeps_trans)
  then have A: "keeps h (snd (create_mosaic e h (Some a) n k pool))"
    unfolding cm snd_wrap .
  have B: "\<exists>out. r = Some out \<and> length h \<le> out \<and> out < length h'
               \<and> shape0 (h' ! out) = shape0 (h ! a) \<and> shape1 (h' ! out) = shape1 (h ! a)"
    if c: "create_mosaic e h (Some a) n k pool = (Inr r, h')" for r h'
  proof -
    from c[unfolded cm] have "\<exists>out'. R = (Inr out', h') \<and> r = Some out'"
      by (rule wrap_Inr)
    then obtain out' where R: "R = (Inr out', h')" and r: "r = Some out'"
      by blast
    have pos: "0 < nat (max 1 k)" by simp
    from rp have "\<forall>out' h'. 0 < nat (max 1 k) \<and> R = (Inr out', h') \<longrightarrow>
         length h2 \<le> out' \<and> out' < length h'
             \<and> shape0 (h' ! out') = shape0 (h2 ! a) \<and> shape1 (h' ! out') = shape1 (h2 ! a)"
      by (rule conjunct2)
    then have "0 < nat (max 1 k) \<and> R = (Inr out', h') \<longrightarrow>
         length h2 \<le> out' \<and> out' < length h'
             \<and> shape0 (h' ! out') = shape0 (h2 ! a) \<and> shape1 (h' ! out') = shape1 (h2 ! a)"
      by (elim allE)
    with pos R have "length h2 \<le> out' \<and> out' < length h'
             \<and> shape0 (h' ! out') = shape0 (h2 ! a) \<and> shape1 (h' ! out') = shape1 (h2 ! a)"
      by blast
    moreover have "length h \<le> length h2" using kh2 by (rule keeps_le)
    ultimately show ?thesis using r s2 by simp
  qed
  show ?thesis using A B by blast
qed

lemma eval_quad_shuffle: "create_mosaic rev_env [quad] (Some 0) 2 1 None =
  (Inr (Some 2), [quad, quad,
     \<lparr>shape0 = 2, shape1 = 2, rows = [[(255, 255, 0), (0, 0, 255)], [(0, 255, 0), (255, 0, 0)]]\<rparr>,
     \<lparr>shape0 = 1, shape1 = 1, rows = [[(255, 0, 0)]]\<rparr>,
     \<lparr>shape0 = 1, shape1 = 1, rows = [[(0, 255, 0)]]\<rparr>,
     \<lparr>shape0 = 1, shape1 = 1, rows = [[(0, 0, 255)]]\<rparr>,
     \<lparr>shape0 = 1, shape1 = 1, rows = [[(255, 255, 0)]]\<rparr>])"
  by code_simp

lemma wf_quad: "wf_array quad"
  by (simp add: wf_array_def quad_def)

text \<open>
  C3: whenever \<open>create_mosaic\<close> returns for an image \<open>a\<close>, the result is an array of
  the height and width of \<open>a\<close> (with as many pixel rows and columns), held in a buffer
  that did not exist before the call, so it is not the buffer of \<open>a\<close>, which is left as
  it was.  This holds for every grid order, iteration count and pool.
\<close>

theorem dimensions_preserved:
  assumes "list_all wf_array h" and "a < length h" and "valid_pool h pool"
    and "create_mosaic e h (Some a) n k pool = (Inr r, h')"
  shows "\<exists>out. r = Some out
           \<and> shape0 (h' ! out) = shape0 (h ! a) \<and> shape1 (h' ! out) = shape1 (h ! a)
           \<and> wf_array (h' ! out)
           \<and> length h \<le> out \<and> out < length h' \<and> out \<noteq> a \<and> h' ! a = h ! a"
proof -
  note ok = create_mosaic_ok[OF assms(2,3), of e n k]
  have kp: "keeps h h'" using ok assms(4) by simp
  from ok assms(4) obtain out where out: "r = Some out" "length h \<le> out" "out < length h'"
      "shape0 (h' ! out) = shape0 (h ! a)" "shape1 (h' ! out) = shape1 (h ! a)"
    by blast
  have "list_all wf_array h'" using kp assms(1) by (rule keeps_wf)
  then have wf: "wf_array (h' ! out)" using out(3) by (simp add: list_all_length)
  have "grows (length h) h (snd (create_mosaic e h (Some a) n k pool))"
    by (rule grows_create_mosaic) simp
  then have "grows (length h) h h'" using assms(4) by simp
  then have same: "h' ! a = h ! a" using assms(2) by (rule grows_nth)
  show ?thesis using out wf same assms(2) by auto
qed

theorem dimensions_preserved_witness:
  "list_all wf_array [quad] \<and> (0::nat) < length [quad] \<and> valid_pool [quad] None
   \<and> create_mosaic rev_env [quad] (Some 0) 2 1 None =
       (Inr (Some 2), snd (create_mosaic rev_env [quad] (Some 0) 2 1 None))
   \<and> shape0 (snd (create_mosaic rev_env [quad] (Some 0) 2 1 None) ! 2) = 2
   \<and> shape1 (snd (create_mosaic rev_env [quad] (Some 0) 2 1 None) ! 2) = 2
   \<and> snd (create_mosaic rev_env [quad] (Some 0) 2 1 None) ! 0 = quad"
proof -
  have 1: "list_all wf_array [quad]" by (simp add: wf_quad)
  have 2: "(0::nat) < length [quad]" by simp
  have 3: "valid_pool [quad] None" by (simp add: valid_pool_def)
  have 4: "create_mosaic rev_env [quad] (Some 0) 2 1 None =
       (Inr (Some 2), snd (create_mosaic rev_env [quad] (Some 0) 2 1 None))"
    by (simp add: eval_quad_shuffle)
  from dimensions_preserved[OF 1 2 3 4] 1 2 3 4 show ?thesis
    by (simp add: quad_def)
qed

text \<open>
  C9: after a call of \<open>create_mosaic\<close> or of \<open>extract_tiles_from_image\<close>, whether it
  returned or raised, every buffer that existed before the call (the target and the pool
  images among them) holds what it held before; the tiles handed out by the extractor are
  buffers allocated by the call, each holding a copy of its cell.
\<close>

theorem inputs_never_mutated:
  "(\<forall>a<length h. snd (create_mosaic e h img n k pool) ! a = h ! a)
   \<and> (\<forall>a<length h. snd (extract_tiles_from_image h im n) ! a = h ! a)
   \<and> (\<forall>i<length h. extract_tiles_from_image h (Some i) n =
          (Inr [length h..<length h + nat n * nat n], h @ cell_views (h ! i) n))"
proof -
  have "grows (length h) h (snd (create_mosaic e h img n k pool))"
    by (rule grows_create_mosaic) simp
  then have A: "\<forall>a<length h. snd (create_mosaic e h img n k pool) ! a = h ! a"
    using grows_nth by blast
  have "grows (length h) h (snd (extract_tiles_from_image h im n))"
    by (rule grows_extract) simp
  then have B: "\<forall>a<length h. snd (extract_tiles_from_image h im n) ! a = h ! a"
    using grows_nth by blast
  from A B show ?thesis by (simp add: extract_eq)
qed

theorem inputs_never_mutated_witness:
  "snd (create_mosaic rev_env [quad, dot] (Some 0) 2 3 (Some [Some 1, Some 0])) ! 0 = quad
   \<and> snd (create_mosaic rev_env [quad, dot] (Some 0) 2 3 (Some [Some 1, Some 0])) ! 1 = dot
   \<and> snd (extract_tiles_from_image [quad, dot] (Some 0) 2) ! 0 = quad
   \<and> extract_tiles_from_image [quad, dot] (Some 0) 2 = (Inr [2, 3, 4, 5], [quad, dot] @ cell_views quad 2)"
  using inputs_never_mutated[of "[quad, dot]" rev_env "Some 0" 2 3 "Some [Some 1, Some 0]" "Some 0"]
  by (simp add: upt_rec)

section \<open>The pool\<close>










section \<open>Passes in sequence\<close>



lemma create_mosaic_returned:
  assumes "2 \<le> n"
  shows "create_mosaic e h (Some a) n k pool =
      returned (run_passes e n a (bounds (shape0 (h ! a)) n) (bounds (shape1 (h ! a)) n)
                  (fst (prepare_pool h pool n)) (nat (max 1 k)) 0
                  (snd (prepare_pool h pool n) @ [snd (prepare_pool h pool n) ! a])
                  (length (snd (prepare_pool h pool n))))"
proof -
  obtain pt h1 where pp: "prepare_pool h pool n = (pt, h1)" by (cases "prepare_pool h pool n")
  have "\<not> n \<le> 1" using assms by simp
  then show ?thesis
    unfolding returned_def pp fst_conv snd_conv using pp by (rule create_mosaic_big)
qed




section \<open>Cells after a shuffle pass\<close>

lemma get_set_same:
  "i \<le> j \<Longrightarrow> j \<le> length xs \<Longrightarrow> length new = j - i \<Longrightarrow>
   get_slice i j (set_slice i j xs new) = new"
  by (simp add: get_slice_def set_slice_def max_def)

lemma get_set_before:
  "b \<le> i \<Longrightarrow> i \<le> length xs \<Longrightarrow>
   get_slice a b (set_slice i j xs new) = get_slice a b xs"
  by (cases "a \<le> b") (simp_all add: get_slice_def set_slice_def take_drop min_def)

lemma get_set_after:
  "i \<le> j \<Longrightarrow> j \<le> a \<Longrightarrow> j \<le> length xs \<Longrightarrow> length new = j - i \<Longrightarrow>
   get_slice a b (set_slice i j xs new) = get_slice a b xs"
  by (simp add: get_slice_def set_slice_def max_def)

lemma setitem_written:
  "broadcast_to (h ! src) (min y1 (shape0 (h ! dst)) - min y0 (shape0 (h ! dst)))
      (min x1 (shape1 (h ! dst)) - min x0 (shape1 (h ! dst))) = Some new \<Longrightarrow>
   setitem h dst y0 y1 x0 x1 src = (Inr (), h[dst := written (h ! dst) y0 y1 x0 x1 new])"
  by (simp add: setitem_def written_def Let_def)

lemma shape_written: "shape0 (written d y0 y1 x0 x1 new) = shape0 d"
  "shape1 (written d y0 y1 x0 x1 new) = shape1 d"
  by (simp_all add: written_def)

lemma wf_written':
  "wf_array d \<Longrightarrow> length new = min y1 (shape0 d) - min y0 (shape0 d) \<Longrightarrow>
   \<forall>r\<in>set new. length r = min x1 (shape1 d) - min x0 (shape1 d) \<Longrightarrow>
   wf_array (written d y0 y1 x0 x1 new)"
  unfolding written_def by (rule wf_written)

lemma map2_get_set_same:
  assumes "length rs = length new" "\<forall>r\<in>set rs. length r = w" "\<forall>r\<in>set new. length r = x1 - x0"
    "x0 \<le> x1" "x1 \<le> w"
  shows "map (get_slice x0 x1) (map2 (\<lambda>r n. set_slice x0 x1 r n) rs new) = new"
proof (rule nth_equalityI)
  show "length (map (get_slice x0 x1) (map2 (\<lambda>r n. set_slice x0 x1 r n) rs new)) = length new"
    using assms(1) by simp
next
  fix i assume "i < length (map (get_slice x0 x1) (map2 (\<lambda>r n. set_slice x0 x1 r n) rs new))"
  then have i: "i < length rs" "i < length new" using assms(1) by simp_all
  then have "length (rs ! i) = w" "length (new ! i) = x1 - x0"
    using assms(2,3) by (simp_all add: nth_mem)
  then have "get_slice x0 x1 (set_slice x0 x1 (rs ! i) (new ! i)) = new ! i"
    using assms(4,5) by (intro get_set_same) simp_all
  then show "map (get_slice x0 x1) (map2 (\<lambda>r n. set_slice x0 x1 r n) rs new) ! i = new ! i"
    using i by simp
qed

lemma map2_get_set_other:
  assumes "length rs = length new" "\<forall>r\<in>set rs. length r = w" "\<forall>r\<in>set new. length r = x1 - x0"
    "x0 \<le> x1" "x1 \<le> w" "b \<le> x0 \<or> x1 \<le> a"
  shows "map (get_slice a b) (map2 (\<lambda>r n. set_slice x0 x1 r n) rs new) = map (get_slice a b) rs"
proof (rule nth_equalityI)
  show "length (map (get_slice a b) (map2 (\<lambda>r n. set_slice x0 x1 r n) rs new))
        = length (map (get_slice a b) rs)"
    using assms(1) by simp
next
  fix i assume "i < length (map (get_slice a b) (map2 (\<lambda>r n. set_slice x0 x1 r n) rs new))"
  then have i: "i < length rs" "i < length new" using assms(1) by simp_all
  then have l: "length (rs ! i) = w" "length (new ! i) = x1 - x0"
    using assms(2,3) by (simp_all add: nth_mem)
  have "get_slice a b (set_slice x0 x1 (rs ! i) (new ! i)) = get_slice a b (rs ! i)"
  proof (cases "b \<le> x0")
    case True
    then show ?thesis using l assms(4,5) by (intro get_set_before) simp_all
  next
    case False
    then have "x1 \<le> a" using assms(6) by simp
    then show ?thesis using l assms(4,5) by (intro get_set_after) simp_all
  qed
  then show "map (get_slice a b) (map2 (\<lambda>r n. set_slice x0 x1 r n) rs new) ! i
             = map (get_slice a b) rs ! i"
    using i by simp
qed

lemma subarray_written_same:
  assumes "wf_array d" "y0 \<le> y1" "y1 \<le> shape0 d" "x0 \<le> x1" "x1 \<le> shape1 d"
    and "length new = y1 - y0" "\<forall>r\<in>set new. length r = x1 - x0"
  shows "subarray (written d y0 y1 x0 x1 new) y0 y1 x0 x1
         = \<lparr>shape0 = y1 - y0, shape1 = x1 - x0, rows = new\<rparr>"
proof -
  have len: "length (rows d) = shape0 d" and wid: "\<forall>r\<in>set (rows d). length r = shape1 d"
    using assms(1) by (simp_all add: wf_array_def list_all_iff)
  let ?rs = "get_slice y0 y1 (rows d)"
  let ?mid = "map2 (\<lambda>r n. set_slice x0 x1 r n) ?rs new"
  have lrs: "length ?rs = y1 - y0" using assms(2,3) len by (simp add: length_get_slice)
  have wrs: "\<forall>r\<in>set ?rs. length r = shape1 d"
    using wid set_get_slice[of y0 y1 "rows d"] by blast
  have lmid: "length ?mid = y1 - y0" using lrs assms(6) by simp
  have "get_slice y0 y1 (set_slice y0 y1 (rows d) ?mid) = ?mid"
    using assms(2,3) len lmid by (intro get_set_same) simp_all
  moreover have "map (get_slice x0 x1) ?mid = new"
    using lrs assms(6) wrs assms(7,4,5) by (intro map2_get_set_same[where w = "shape1 d"]) simp_all
  ultimately show ?thesis
    using assms(2-5) by (simp add: subarray_def written_def)
qed

lemma subarray_written_other:
  assumes "wf_array d" "y0 \<le> y1" "y1 \<le> shape0 d" "x0 \<le> x1" "x1 \<le> shape1 d"
    and "length new = y1 - y0" "\<forall>r\<in>set new. length r = x1 - x0"
    and "(y1' \<le> y0 \<or> y1 \<le> y0') \<or> (y0' = y0 \<and> y1' = y1 \<and> (x1' \<le> x0 \<or> x1 \<le> x0'))"
  shows "subarray (written d y0 y1 x0 x1 new) y0' y1' x0' x1' = subarray d y0' y1' x0' x1'"
proof -
  have len: "length (rows d) = shape0 d" and wid: "\<forall>r\<in>set (rows d). length r = shape1 d"
    using assms(1) by (simp_all add: wf_array_def list_all_iff)
  let ?rs = "get_slice y0 y1 (rows d)"
  let ?mid = "map2 (\<lambda>r n. set_slice x0 x1 r n) ?rs new"
  have lrs: "length ?rs = y1 - y0" using assms(2,3) len by (simp add: length_get_slice)
  have wrs: "\<forall>r\<in>set ?rs. length r = shape1 d"
    using wid set_get_slice[of y0 y1 "rows d"] by blast
  have lmid: "length ?mid = y1 - y0" using lrs assms(6) by simp
  have "map (get_slice x0' x1') (get_slice y0' y1' (set_slice y0 y1 (rows d) ?mid))
        = map (get_slice x0' x1') (get_slice y0' y1' (rows d))"
  proof -
    consider "y1' \<le> y0" | "y1 \<le> y0'"
      | "y0' = y0" "y1' = y1" "x1' \<le> x0 \<or> x1 \<le> x0'"
      using assms(8) by blast
    then show ?thesis
    proof cases
      case 1
      then have "get_slice y0' y1' (set_slice y0 y1 (rows d) ?mid) = get_slice y0' y1' (rows d)"
        using assms(2,3) len by (intro get_set_before) simp_all
      then show ?thesis by simp
    next
      case 2
      then have "get_slice y0' y1' (set_slice y0 y1 (rows d) ?mid) = get_slice y0' y1' (rows d)"
        using assms(2,3) len lmid by (intro get_set_after) simp_all
      then show ?thesis by simp
    next
      case 3
      have "get_slice y0 y1 (set_slice y0 y1 (rows d) ?mid) = ?mid"
        using assms(2,3) len lmid by (intro get_set_same) simp_all
      moreover have "map (get_slice x0' x1') ?mid = map (get_slice x0' x1') ?rs"
        using lrs assms(6) wrs assms(7,4,5) 3(3)
        by (intro map2_get_set_other[where w = "shape1 d"]) simp_all
      ultimately show ?thesis using 3(1,2) by simp
    qed
  qed
  then show ?thesis by (simp add: subarray_def written_def)
qed

lemma cell_views_cell_of:
  "cell_views a n = map (cell_of a (bounds (shape0 a) n) (bounds (shape1 a) n)) (cells n)"
  by (simp add: cell_views_def cell_of_def)

lemma band_ok:
  assumes "1 \<le> n" "r < nat n"
  shows "bounds H n ! r \<le> bounds H n ! (r + 1)" "bounds H n ! (r + 1) \<le> H"
  using assms by (simp_all add: bounds_mono bounds_le)

lemma bands_apart:
  assumes "1 \<le> n" "r < nat n" "r' < nat n" "r \<noteq> r'"
  shows "bounds H n ! (r' + 1) \<le> bounds H n ! r \<or> bounds H n ! (r + 1) \<le> bounds H n ! r'"
proof (cases "r' < r")
  case True
  then have "bounds H n ! (r' + 1) \<le> bounds H n ! r"
    using assms by (intro bounds_mono) simp_all
  then show ?thesis ..
next
  case False
  then have "bounds H n ! (r + 1) \<le> bounds H n ! r'"
    using assms by (intro bounds_mono) simp_all
  then show ?thesis ..
qed

lemma record_rebuild:
  "shape0 t = a \<Longrightarrow> shape1 t = b \<Longrightarrow> \<lparr>shape0 = a, shape1 = b, rows = rows t\<rparr> = t"
  by simp

lemma cell_of_written_same:
  assumes "1 \<le> n" "c \<in> set (cells n)" "wf_array d" "wf_array t"
    and "shape0 t = bounds (shape0 d) n ! (fst c + 1) - bounds (shape0 d) n ! fst c"
    and "shape1 t = bounds (shape1 d) n ! (snd c + 1) - bounds (shape1 d) n ! snd c"
  shows "cell_of (written d (bounds (shape0 d) n ! fst c) (bounds (shape0 d) n ! (fst c + 1))
                    (bounds (shape1 d) n ! snd c) (bounds (shape1 d) n ! (snd c + 1)) (rows t))
           (bounds (shape0 d) n) (bounds (shape1 d) n) c = t"
proof -
  have c: "fst c < nat n" "snd c < nat n" using assms(2) by (auto simp: set_cells)
  have lt: "length (rows t) = shape0 t" "\<forall>r\<in>set (rows t). length r = shape1 t"
    using assms(4) by (simp_all add: wf_array_def list_all_iff)
  have "subarray (written d (bounds (shape0 d) n ! fst c) (bounds (shape0 d) n ! (fst c + 1))
                    (bounds (shape1 d) n ! snd c) (bounds (shape1 d) n ! (snd c + 1)) (rows t))
          (bounds (shape0 d) n ! fst c) (bounds (shape0 d) n ! (fst c + 1))
          (bounds (shape1 d) n ! snd c) (bounds (shape1 d) n ! (snd c + 1))
        = \<lparr>shape0 = bounds (shape0 d) n ! (fst c + 1) - bounds (shape0 d) n ! fst c,
           shape1 = bounds (shape1 d) n ! (snd c + 1) - bounds (shape1 d) n ! snd c,
           rows = rows t\<rparr>"
    using assms(3) band_ok[OF assms(1) c(1)] band_ok[OF assms(1) c(2)] lt assms(5,6)
    by (intro subarray_written_same) simp_all
  also have "\<dots> = t" using assms(5,6) by (intro record_rebuild) simp_all
  finally show ?thesis by (simp add: cell_of_def)
qed

lemma cell_of_written_other:
  assumes "1 \<le> n" "c \<in> set (cells n)" "c' \<in> set (cells n)" "c' \<noteq> c" "wf_array d" "wf_array t"
    and "shape0 t = bounds (shape0 d) n ! (fst c + 1) - bounds (shape0 d) n ! fst c"
    and "shape1 t = bounds (shape1 d) n ! (snd c + 1) - bounds (shape1 d) n ! snd c"
  shows "cell_of (written d (bounds (shape0 d) n ! fst c) (bounds (shape0 d) n ! (fst c + 1))
                    (bounds (shape1 d) n ! snd c) (bounds (shape1 d) n ! (snd c + 1)) (rows t))
           (bounds (shape0 d) n) (bounds (shape1 d) n) c'
         = cell_of d (bounds (shape0 d) n) (bounds (shape1 d) n) c'"
proof -
  have c: "fst c < nat n" "snd c < nat n" using assms(2) by (auto simp: set_cells)
  have c': "fst c' < nat n" "snd c' < nat n" using assms(3) by (auto simp: set_cells)
  have lt: "length (rows t) = shape0 t" "\<forall>r\<in>set (rows t). length r = shape1 t"
    using assms(6) by (simp_all add: wf_array_def list_all_iff)
  let ?ys = "bounds (shape0 d) n" and ?xs = "bounds (shape1 d) n"
  have apart: "(?ys ! (fst c' + 1) \<le> ?ys ! fst c \<or> ?ys ! (fst c + 1) \<le> ?ys ! fst c')
      \<or> (?ys ! fst c' = ?ys ! fst c \<and> ?ys ! (fst c' + 1) = ?ys ! (fst c + 1)
          \<and> (?xs ! (snd c' + 1) \<le> ?xs ! snd c \<or> ?xs ! (snd c + 1) \<le> ?xs ! snd c'))"
  proof (cases "fst c = fst c'")
    case True
    then have "snd c \<noteq> snd c'" using assms(4) by (auto simp: prod_eq_iff)
    from bands_apart[OF assms(1) c(2) c'(2) this] True show ?thesis by simp
  next
    case False
    from bands_apart[OF assms(1) c(1) c'(1) this] show ?thesis by simp
  qed
  show ?thesis unfolding cell_of_def
    using assms(5) band_ok[OF assms(1) c(1)] band_ok[OF assms(1) c(2)] lt assms(7,8) apart
    by (intro subarray_written_other) simp_all
qed

lemma place_tile_exact:
  assumes "1 \<le> n" "c \<in> set (cells n)"
    and "shape0 (h ! t) = bounds (shape0 (h ! d)) n ! (fst c + 1) - bounds (shape0 (h ! d)) n ! fst c"
    and "shape1 (h ! t) = bounds (shape1 (h ! d)) n ! (snd c + 1) - bounds (shape1 (h ! d)) n ! snd c"
  shows "place_tile e h d (bounds (shape0 (h ! d)) n) (bounds (shape1 (h ! d)) n) c t =
     (Inr (), h[d := written (h ! d)
        (bounds (shape0 (h ! d)) n ! fst c) (bounds (shape0 (h ! d)) n ! (fst c + 1))
        (bounds (shape1 (h ! d)) n ! snd c) (bounds (shape1 (h ! d)) n ! (snd c + 1)) (rows (h ! t))])"
proof -
  let ?ys = "bounds (shape0 (h ! d)) n" and ?xs = "bounds (shape1 (h ! d)) n"
  have c: "fst c < nat n" "snd c < nat n" using assms(2) by (auto simp: set_cells)
  have f: "fit_tile e h t (?ys ! (fst c + 1) - ?ys ! fst c) (?xs ! (snd c + 1) - ?xs ! snd c) = (Inr t, h)"
    using assms(3,4) by (simp add: fit_tile_def)
  have my: "min (?ys ! (fst c + 1)) (shape0 (h ! d)) - min (?ys ! fst c) (shape0 (h ! d)) = shape0 (h ! t)"
    using band_ok[OF assms(1) c(1), of "shape0 (h ! d)"] assms(3) by simp
  have mx: "min (?xs ! (snd c + 1)) (shape1 (h ! d)) - min (?xs ! snd c) (shape1 (h ! d)) = shape1 (h ! t)"
    using band_ok[OF assms(1) c(2), of "shape1 (h ! d)"] assms(4) by simp
  have "setitem h d (?ys ! fst c) (?ys ! (fst c + 1)) (?xs ! snd c) (?xs ! (snd c + 1)) t =
     (Inr (), h[d := written (h ! d) (?ys ! fst c) (?ys ! (fst c + 1)) (?xs ! snd c) (?xs ! (snd c + 1))
        (rows (h ! t))])"
    by (rule setitem_written) (simp only: my mx broadcast_same)
  then show ?thesis using f by (simp add: place_tile_def Let_def)
qed

lemma shuffle_loop_exact:
  assumes n: "1 \<le> n"
    and cs: "distinct cs" "set cs \<subseteq> set (cells n)"
    and d: "d < length h" "wf_array (h ! d)" "shape0 (h ! d) = H" "shape1 (h ! d) = W"
    and tl: "\<forall>j<length cs. i + j < length perm \<and> perm ! (i + j) < length tiles
              \<and> tiles ! (perm ! (i + j)) < length h \<and> tiles ! (perm ! (i + j)) \<noteq> d
              \<and> wf_array (h ! (tiles ! (perm ! (i + j))))
              \<and> shape0 (h ! (tiles ! (perm ! (i + j))))
                  = bounds H n ! (fst (cs ! j) + 1) - bounds H n ! fst (cs ! j)
              \<and> shape1 (h ! (tiles ! (perm ! (i + j))))
                  = bounds W n ! (snd (cs ! j) + 1) - bounds W n ! snd (cs ! j)"
  shows "\<exists>D. shuffle_loop e h d (bounds H n) (bounds W n) tiles perm i cs = (Inr (), h[d := D])
           \<and> wf_array D \<and> shape0 D = H \<and> shape1 D = W
           \<and> (\<forall>j<length cs. cell_of D (bounds H n) (bounds W n) (cs ! j) = h ! (tiles ! (perm ! (i + j))))
           \<and> (\<forall>c\<in>set (cells n) - set cs.
                 cell_of D (bounds H n) (bounds W n) c = cell_of (h ! d) (bounds H n) (bounds W n) c)"
  using cs d tl
proof (induction cs arbitrary: h i)
  case Nil
  have "h[d := h ! d] = h" by simp
  then show ?case using Nil by (intro exI[of _ "h ! d"]) simp
next
  case (Cons c cs)
  let ?ys = "bounds H n" and ?xs = "bounds W n"
  define t where "t = tiles ! (perm ! i)"
  have c: "c \<in> set (cells n)" "c \<notin> set cs" using Cons.prems(1,2) by simp_all
  from Cons.prems(7)[rule_format, of 0]
  have t: "i < length perm" "perm ! i < length tiles" "t < length h" "t \<noteq> d" "wf_array (h ! t)"
    "shape0 (h ! t) = ?ys ! (fst c + 1) - ?ys ! fst c"
    "shape1 (h ! t) = ?xs ! (snd c + 1) - ?xs ! snd c"
    by (simp_all add: t_def)
  define D1 where "D1 = written (h ! d) (?ys ! fst c) (?ys ! (fst c + 1)) (?xs ! snd c) (?xs ! (snd c + 1)) (rows (h ! t))"
  define h1 where "h1 = h[d := D1]"
  have pl: "place_tile e h d ?ys ?xs c t = (Inr (), h1)"
    using place_tile_exact[OF n c(1), of h t d e] t(6,7) Cons.prems(5,6)
    by (simp add: h1_def D1_def)
  have step: "shuffle_loop e h d ?ys ?xs tiles perm i (c # cs)
              = shuffle_loop e h1 d ?ys ?xs tiles perm (i + 1) cs"
    using t(1,2) pl by (simp add: py_nth_def t_def)
  have lt: "length (rows (h ! t)) = shape0 (h ! t)" "\<forall>r\<in>set (rows (h ! t)). length r = shape1 (h ! t)"
    using t(5) by (simp_all add: wf_array_def list_all_iff)
  have cc: "fst c < nat n" "snd c < nat n" using c(1) by (auto simp: set_cells)
  have wfD1: "wf_array D1"
    unfolding D1_def
    using Cons.prems(4) lt t(6,7) band_ok[OF n cc(1), of H] band_ok[OF n cc(2), of W] Cons.prems(5,6)
    by (intro wf_written') simp_all
  have shD1: "shape0 D1 = H" "shape1 D1 = W"
    using Cons.prems(5,6) by (simp_all add: D1_def shape_written)
  have h1d: "h1 ! d = D1" using Cons.prems(3) by (simp add: h1_def)
  have h1o: "h1 ! a = h ! a" if "a \<noteq> d" for a using that by (simp add: h1_def)
  have p1: "distinct cs" "set cs \<subseteq> set (cells n)" using Cons.prems(1,2) by simp_all
  have p2: "d < length h1" "wf_array (h1 ! d)" "shape0 (h1 ! d) = H" "shape1 (h1 ! d) = W"
    using Cons.prems(3) wfD1 shD1 h1d by (simp_all add: h1_def)
  have p3: "\<forall>j<length cs. (i + 1) + j < length perm \<and> perm ! ((i + 1) + j) < length tiles
              \<and> tiles ! (perm ! ((i + 1) + j)) < length h1 \<and> tiles ! (perm ! ((i + 1) + j)) \<noteq> d
              \<and> wf_array (h1 ! (tiles ! (perm ! ((i + 1) + j))))
              \<and> shape0 (h1 ! (tiles ! (perm ! ((i + 1) + j))))
                  = ?ys ! (fst (cs ! j) + 1) - ?ys ! fst (cs ! j)
              \<and> shape1 (h1 ! (tiles ! (perm ! ((i + 1) + j))))
                  = ?xs ! (snd (cs ! j) + 1) - ?xs ! snd (cs ! j)"
  proof (intro allI impI)
    fix j assume j: "j < length cs"
    then have "Suc j < length (c # cs)" by simp
    from Cons.prems(7)[rule_format, OF this]
    show "(i + 1) + j < length perm \<and> perm ! ((i + 1) + j) < length tiles
              \<and> tiles ! (perm ! ((i + 1) + j)) < length h1 \<and> tiles ! (perm ! ((i + 1) + j)) \<noteq> d
              \<and> wf_array (h1 ! (tiles ! (perm ! ((i + 1) + j))))
              \<and> shape0 (h1 ! (tiles ! (perm ! ((i + 1) + j))))
                  = ?ys ! (fst (cs ! j) + 1) - ?ys ! fst (cs ! j)
              \<and> shape1 (h1 ! (tiles ! (perm ! ((i + 1) + j))))
                  = ?xs ! (snd (cs ! j) + 1) - ?xs ! snd (cs ! j)"
      by (simp add: h1_def)
  qed
  from Cons.IH[OF p1 p2 p3] obtain D where
    D: "shuffle_loop e h1 d ?ys ?xs tiles perm (i + 1) cs = (Inr (), h1[d := D])"
      "wf_array D" "shape0 D = H" "shape1 D = W"
      "\<forall>j<length cs. cell_of D ?ys ?xs (cs ! j) = h1 ! (tiles ! (perm ! ((i + 1) + j)))"
      "\<forall>c\<in>set (cells n) - set cs. cell_of D ?ys ?xs c = cell_of (h1 ! d) ?ys ?xs c"
    by blast
  have r1: "shuffle_loop e h d ?ys ?xs tiles perm i (c # cs) = (Inr (), h[d := D])"
    using step D(1) by (simp add: h1_def)
  have own: "cell_of D1 ?ys ?xs c = h ! t"
    unfolding D1_def
    using cell_of_written_same[OF n c(1) Cons.prems(4) t(5)] t(6,7) Cons.prems(5,6) by simp
  have other: "cell_of D1 ?ys ?xs c' = cell_of (h ! d) ?ys ?xs c'"
    if "c' \<in> set (cells n)" "c' \<noteq> c" for c'
    unfolding D1_def
    using cell_of_written_other[OF n c(1) that Cons.prems(4) t(5)] t(6,7) Cons.prems(5,6) by simp
  have r2: "cell_of D ?ys ?xs ((c # cs) ! j) = h ! (tiles ! (perm ! (i + j)))"
    if j: "j < length (c # cs)" for j
  proof (cases j)
    case 0
    have "cell_of D ?ys ?xs c = cell_of (h1 ! d) ?ys ?xs c" using D(6) c by simp
    then show ?thesis using 0 own h1d by (simp add: t_def)
  next
    case (Suc j')
    then have j': "j' < length cs" using j by simp
    then have "Suc j' < length (c # cs)" by simp
    from Cons.prems(7)[rule_format, OF this] have "tiles ! (perm ! (i + Suc j')) \<noteq> d" by simp
    then have "h1 ! (tiles ! (perm ! (i + Suc j'))) = h ! (tiles ! (perm ! (i + Suc j')))"
      by (rule h1o)
    then show ?thesis using Suc D(5) j' by simp
  qed
  have r3: "cell_of D ?ys ?xs c' = cell_of (h ! d) ?ys ?xs c'"
    if "c' \<in> set (cells n) - set (c # cs)" for c'
  proof -
    have "c' \<in> set (cells n)" "c' \<noteq> c" "c' \<notin> set cs" using that by auto
    then show ?thesis using D(6) other h1d by simp
  qed
  show ?case using r1 D(2,3,4) r2 r3 by (intro exI[of _ D]) blast
qed

lemma bounds_uniform:
  assumes "1 \<le> n" "nat n dvd H" "r \<le> nat n"
  shows "bounds H n ! r = r * (H div nat n)"
proof -
  have "(H * r) div nat n = r * (H div nat n)"
    using assms(2) by (metis div_mult_swap mult.commute)
  then show ?thesis using assms(1,3) by (simp add: bounds_nth)
qed

lemma band_uniform:
  assumes "1 \<le> n" "nat n dvd H" "r < nat n"
  shows "bounds H n ! (r + 1) - bounds H n ! r = H div nat n"
  using assms by (simp add: bounds_uniform)

lemma distinct_cells: "distinct (cells n)"
  unfolding cells_def
  by (rule distinct_concat) (auto simp: distinct_map inj_on_def)

lemma shape_cell_of:
  assumes "1 \<le> n" "c \<in> set (cells n)"
  shows "shape0 (cell_of a (bounds (shape0 a) n) xs c)
           = bounds (shape0 a) n ! (fst c + 1) - bounds (shape0 a) n ! fst c"
    and "shape1 (cell_of a ys (bounds (shape1 a) n) c)
           = bounds (shape1 a) n ! (snd c + 1) - bounds (shape1 a) n ! snd c"
proof -
  have c: "fst c < nat n" "snd c < nat n" using assms(2) by (auto simp: set_cells)
  show "shape0 (cell_of a (bounds (shape0 a) n) xs c)
           = bounds (shape0 a) n ! (fst c + 1) - bounds (shape0 a) n ! fst c"
    using band_ok[OF assms(1) c(1), of "shape0 a"] by (simp add: cell_of_def subarray_def)
  show "shape1 (cell_of a ys (bounds (shape1 a) n) c)
           = bounds (shape1 a) n ! (snd c + 1) - bounds (shape1 a) n ! snd c"
    using band_ok[OF assms(1) c(2), of "shape1 a"] by (simp add: cell_of_def subarray_def)
qed

lemma mset_map_nth_perm:
  assumes "mset perm = mset [0..<length V]"
  shows "mset (map (nth V) perm) = mset V"
proof -
  have "mset (map (nth V) perm) = image_mset (nth V) (mset perm)" by simp
  also have "\<dots> = image_mset (nth V) (mset [0..<length V])" using assms by simp
  also have "\<dots> = mset (map (nth V) [0..<length V])" by simp
  also have "\<dots> = mset V" by (simp add: map_nth)
  finally show ?thesis .
qed

lemma mosaic_pass_no_pool:
  assumes "out < length h"
  shows "mosaic_pass e n img ys xs None p h out =
     (case shuffle_loop e (h @ [zeros (shape0 (h ! img)) (shape1 (h ! img))] @ cell_views (h ! out) n)
             (length h) ys xs [length h + 1..<length h + 1 + nat n * nat n]
             (shuffle e p [0..<nat n * nat n]) 0 (cells n) of
        (Inl err, h3) \<Rightarrow> (Inl err, h3)
      | (Inr u, h3) \<Rightarrow> (Inr (length h), h3))"
proof -
  let ?h1 = "h @ [zeros (shape0 (h ! img)) (shape1 (h ! img))]"
  have z: "np_zeros_like h img = (length h, ?h1)" by (simp add: np_zeros_like_def alloc_def)
  have o: "out < length ?h1" using assms by simp
  have ex: "extract_tiles_from_image ?h1 (Some out) n =
     (Inr [length ?h1..<length ?h1 + nat n * nat n], ?h1 @ cell_views (?h1 ! out) n)"
    using o by (rule extract_eq)
  have v: "?h1 ! out = h ! out" using assms by (simp add: nth_append)
  show ?thesis
    by (simp add: mosaic_pass_def z ex v del: upt_Suc)
qed

lemma perm_facts:
  assumes "mset perm = mset [0..<m]"
  shows "length perm = m" "\<forall>j<length perm. perm ! j < m"
proof -
  show l: "length perm = m" using assms by (metis length_upt mset_eq_length diff_zero)
  have "set perm = set [0..<m]" using assms by (rule mset_eq_setD)
  then show "\<forall>j<length perm. perm ! j < m" by (metis atLeastLessThan_iff nth_mem set_upt)
qed

lemma shuffle_pass_uniform:
  assumes wf: "wf_array I" and n: "1 \<le> n"
    and dv: "nat n dvd shape0 I" "nat n dvd shape1 I"
    and sh: "mset perm = mset [0..<nat n * nat n]"
    and h4: "h4 = h2 @ [zeros (shape0 I) (shape1 I)] @ cell_views I n"
  shows "\<exists>D. shuffle_loop e h4 (length h2) (bounds (shape0 I) n) (bounds (shape1 I) n)
                 [length h2 + 1..<length h2 + 1 + nat n * nat n] perm 0 (cells n)
               = (Inr (), h4[length h2 := D])
             \<and> cell_views D n = map (nth (cell_views I n)) perm"
proof -
  define H W N d V where "H = shape0 I" and "W = shape1 I" and "N = nat n"
    and "d = length h2" and "V = cell_views I n"
  define tiles where "tiles = [d + 1..<d + 1 + N * N]"
  let ?ys = "bounds H n" and ?xs = "bounds W n"
  have lt: "length tiles = N * N" by (simp add: tiles_def del: upt_Suc)
  have tn: "tiles ! q = d + 1 + q" if "q < N * N" for q
    using that unfolding tiles_def by (simp del: upt_Suc)
  have lV: "length V = N * N" by (simp add: V_def N_def length_cell_views)
  have lc: "length (cells n) = N * N" by (simp add: N_def length_cells)
  have lp: "length perm = N * N" and pj: "\<forall>j<length perm. perm ! j < N * N"
    using perm_facts[OF sh] by (simp_all add: N_def)
  have h4': "h4 = h2 @ [zeros H W] @ V" using h4 by (simp add: H_def W_def V_def)
  have l4: "length h4 = d + 1 + N * N" by (simp add: h4' d_def lV)
  have h4d: "h4 ! d = zeros H W" by (simp add: h4' d_def nth_append)
  have h4t: "h4 ! (d + 1 + q) = V ! q" for q
    by (simp add: h4' d_def nth_append)
  have Vq: "V ! q = cell_of I ?ys ?xs (cells n ! q)" if "q < N * N" for q
    using that lc by (simp add: V_def cell_views_cell_of H_def W_def)
  have cellmem: "cells n ! q \<in> set (cells n)" if "q < N * N" for q
    using that lc by simp
  have shV: "shape0 (V ! q) = H div N \<and> shape1 (V ! q) = W div N \<and> wf_array (V ! q)"
    if q: "q < N * N" for q
  proof -
    have c: "cells n ! q \<in> set (cells n)" using q by (rule cellmem)
    then have cc: "fst (cells n ! q) < nat n" "snd (cells n ! q) < nat n" by (auto simp: set_cells)
    have "shape0 (V ! q) = ?ys ! (fst (cells n ! q) + 1) - ?ys ! fst (cells n ! q)"
      unfolding Vq[OF q] H_def using n c by (rule shape_cell_of(1))
    moreover have "shape1 (V ! q) = ?xs ! (snd (cells n ! q) + 1) - ?xs ! snd (cells n ! q)"
      unfolding Vq[OF q] W_def using n c by (rule shape_cell_of(2))
    moreover have "wf_array (V ! q)"
      unfolding Vq[OF q] cell_of_def using wf by (rule wf_subarray)
    ultimately show ?thesis
      using band_uniform[OF n dv(1) cc(1)] band_uniform[OF n dv(2) cc(2)]
      by (simp add: H_def W_def N_def)
  qed
  have tl: "\<forall>j<length (cells n). 0 + j < length perm \<and> perm ! (0 + j) < length tiles
              \<and> tiles ! (perm ! (0 + j)) < length h4 \<and> tiles ! (perm ! (0 + j)) \<noteq> d
              \<and> wf_array (h4 ! (tiles ! (perm ! (0 + j))))
              \<and> shape0 (h4 ! (tiles ! (perm ! (0 + j))))
                  = ?ys ! (fst (cells n ! j) + 1) - ?ys ! fst (cells n ! j)
              \<and> shape1 (h4 ! (tiles ! (perm ! (0 + j))))
                  = ?xs ! (snd (cells n ! j) + 1) - ?xs ! snd (cells n ! j)"
  proof (intro allI impI)
    fix j assume "j < length (cells n)"
    then have j: "j < N * N" using lc by simp
    then have q: "perm ! j < N * N" using pj lp by simp
    have tq: "tiles ! (perm ! j) = d + 1 + perm ! j" using q by (rule tn)
    have c: "cells n ! j \<in> set (cells n)" using j by (rule cellmem)
    then have cc: "fst (cells n ! j) < nat n" "snd (cells n ! j) < nat n" by (auto simp: set_cells)
    have b0: "?ys ! (fst (cells n ! j) + 1) - ?ys ! fst (cells n ! j) = H div N"
      using band_uniform[OF n dv(1) cc(1)] by (simp add: H_def N_def)
    have b1: "?xs ! (snd (cells n ! j) + 1) - ?xs ! snd (cells n ! j) = W div N"
      using band_uniform[OF n dv(2) cc(2)] by (simp add: W_def N_def)
    show "0 + j < length perm \<and> perm ! (0 + j) < length tiles
              \<and> tiles ! (perm ! (0 + j)) < length h4 \<and> tiles ! (perm ! (0 + j)) \<noteq> d
              \<and> wf_array (h4 ! (tiles ! (perm ! (0 + j))))
              \<and> shape0 (h4 ! (tiles ! (perm ! (0 + j))))
                  = ?ys ! (fst (cells n ! j) + 1) - ?ys ! fst (cells n ! j)
              \<and> shape1 (h4 ! (tiles ! (perm ! (0 + j))))
                  = ?xs ! (snd (cells n ! j) + 1) - ?xs ! snd (cells n ! j)"
      unfolding b0 b1 add_0 tq h4t using j q lp l4 lt shV[OF q] by simp
  qed
  have dd: "d < length h4" "wf_array (h4 ! d)" "shape0 (h4 ! d) = H" "shape1 (h4 ! d) = W"
    using l4 wf_zeros[of H W] by (simp_all add: h4d) (simp_all add: zeros_def)
  from shuffle_loop_exact[OF n distinct_cells subset_refl dd tl, of e]
  obtain D where D: "shuffle_loop e h4 d ?ys ?xs tiles perm 0 (cells n) = (Inr (), h4[d := D])"
    "shape0 D = H" "shape1 D = W"
    "\<forall>j<length (cells n). cell_of D ?ys ?xs (cells n ! j) = h4 ! (tiles ! (perm ! (0 + j)))"
    by blast
  have "cell_views D n = map (nth V) perm"
  proof (rule nth_equalityI)
    show "length (cell_views D n) = length (map (nth V) perm)"
      by (simp add: length_cell_views lp N_def)
  next
    fix j assume "j < length (cell_views D n)"
    then have j: "j < N * N" by (simp add: length_cell_views N_def)
    then have q: "perm ! j < N * N" using pj lp by simp
    have tq: "tiles ! (perm ! j) = d + 1 + perm ! j" using q by (rule tn)
    have "cell_views D n ! j = cell_of D ?ys ?xs (cells n ! j)"
      using j lc D(2,3) by (simp add: cell_views_cell_of)
    also have "\<dots> = h4 ! (tiles ! (perm ! j))" using D(4) j lc by simp
    also have "\<dots> = V ! (perm ! j)" unfolding tq h4t ..
    finally show "cell_views D n ! j = map (nth V) perm ! j" using j lp by simp
  qed
  then show ?thesis
    using D(1) unfolding tiles_def d_def H_def W_def V_def N_def by blast
qed

lemma single_pass_no_pool:
  assumes "2 \<le> n" "a < length h"
  shows "create_mosaic e h (Some a) n 1 None =
     returned (case shuffle_loop e
                 ((h @ [h ! a]) @ [zeros (shape0 (h ! a)) (shape1 (h ! a))] @ cell_views (h ! a) n)
                 (length (h @ [h ! a])) (bounds (shape0 (h ! a)) n) (bounds (shape1 (h ! a)) n)
                 [length (h @ [h ! a]) + 1..<length (h @ [h ! a]) + 1 + nat n * nat n]
                 (shuffle e 0 [0..<nat n * nat n]) 0 (cells n) of
        (Inl err, h3) \<Rightarrow> (Inl err, h3)
      | (Inr u, h3) \<Rightarrow> (Inr (length (h @ [h ! a])), h3))"
proof -
  define h2 where "h2 = h @ [h ! a]"
  have pp: "prepare_pool h None n = (None, h)" by (simp add: prepare_pool_def)
  have o: "length h < length h2" by (simp add: h2_def)
  have v: "h2 ! a = h ! a" "h2 ! length h = h ! a" using assms(2) by (simp_all add: h2_def nth_append)
  have "create_mosaic e h (Some a) n 1 None =
      returned (run_passes e n a (bounds (shape0 (h ! a)) n) (bounds (shape1 (h ! a)) n)
                  None (Suc 0) 0 h2 (length h))"
    using create_mosaic_returned[OF assms(1), of e h a 1 None] by (simp add: pp h2_def)
  also have "run_passes e n a (bounds (shape0 (h ! a)) n) (bounds (shape1 (h ! a)) n)
                  None (Suc 0) 0 h2 (length h)
       = mosaic_pass e n a (bounds (shape0 (h ! a)) n) (bounds (shape1 (h ! a)) n) None 0 h2 (length h)"
    by (simp split: prod.splits sum.splits)
  also have "\<dots> = (case shuffle_loop e (h2 @ [zeros (shape0 (h ! a)) (shape1 (h ! a))] @ cell_views (h ! a) n)
             (length h2) (bounds (shape0 (h ! a)) n) (bounds (shape1 (h ! a)) n)
             [length h2 + 1..<length h2 + 1 + nat n * nat n]
             (shuffle e 0 [0..<nat n * nat n]) 0 (cells n) of
        (Inl err, h3) \<Rightarrow> (Inl err, h3)
      | (Inr u, h3) \<Rightarrow> (Inr (length h2), h3))"
    using mosaic_pass_no_pool[OF o, of e n a] by (simp only: v)
  finally show ?thesis unfolding h2_def .
qed

text \<open>
  C1: in no-pool mode, for \<open>n \<ge> 2\<close> and an image whose height and width are multiples of
  \<open>n\<close>, one iteration returns an image whose cell \<open>i\<close> is the cell \<open>perm[i]\<close> of the
  input, where \<open>perm\<close> is what \<open>random.shuffle\<close> left of \<open>range(n * n)\<close>.  As a shuffle
  permutes its list, the cells of the output are the cells of the input, each one placed
  exactly once: the two multisets of \<open>n\<^sup>2\<close> cell buffers are equal.
\<close>

theorem no_pool_permutation:
  assumes "wf_array (h ! a)" and "a < length h" and "2 \<le> n"
    and "nat n dvd shape0 (h ! a)" and "nat n dvd shape1 (h ! a)"
    and "mset (shuffle e 0 [0..<nat n * nat n]) = mset [0..<nat n * nat n]"
  shows "\<exists>out h'. create_mosaic e h (Some a) n 1 None = (Inr (Some out), h')
           \<and> cell_views (h' ! out) n
               = map (nth (cell_views (h ! a) n)) (shuffle e 0 [0..<nat n * nat n])
           \<and> mset (cell_views (h' ! out) n) = mset (cell_views (h ! a) n)"
proof -
  define h2 where "h2 = h @ [h ! a]"
  define h4 where "h4 = h2 @ [zeros (shape0 (h ! a)) (shape1 (h ! a))] @ cell_views (h ! a) n"
  define perm where "perm = shuffle e 0 [0..<nat n * nat n]"
  have n1: "1 \<le> n" using assms(3) by simp
  from shuffle_pass_uniform[OF assms(1) n1 assms(4,5) assms(6)[folded perm_def] h4_def, of e]
  obtain D where D: "shuffle_loop e h4 (length h2) (bounds (shape0 (h ! a)) n) (bounds (shape1 (h ! a)) n)
                 [length h2 + 1..<length h2 + 1 + nat n * nat n] perm 0 (cells n)
               = (Inr (), h4[length h2 := D])"
    and cv: "cell_views D n = map (nth (cell_views (h ! a) n)) perm"
    by blast
  have cm: "create_mosaic e h (Some a) n 1 None = (Inr (Some (length h2)), h4[length h2 := D])"
    using single_pass_no_pool[OF assms(3,2), of e]
    unfolding h2_def[symmetric] h4_def[symmetric] perm_def[symmetric] D
    by (simp add: returned_def)
  have "length h2 < length h4" by (simp add: h4_def)
  then have at: "h4[length h2 := D] ! length h2 = D" by simp
  have "mset perm = mset [0..<length (cell_views (h ! a) n)]"
    using assms(6) by (simp add: perm_def length_cell_views)
  then have "mset (map (nth (cell_views (h ! a) n)) perm) = mset (cell_views (h ! a) n)"
    by (rule mset_map_nth_perm)
  then have ms: "mset (cell_views D n) = mset (cell_views (h ! a) n)" using cv by simp
  show ?thesis
    using cm cv ms unfolding perm_def
    by (intro exI[of _ "length h2"] exI[of _ "h4[length h2 := D]"]) (simp add: at)
qed

theorem no_pool_permutation_witness:
  "wf_array ([quad] ! 0) \<and> (0::nat) < length [quad] \<and> (2::int) \<le> 2
   \<and> nat 2 dvd shape0 ([quad] ! 0) \<and> nat 2 dvd shape1 ([quad] ! 0)
   \<and> mset (shuffle rev_env 0 [0..<nat 2 * nat 2]) = mset [0..<nat 2 * nat 2]
   \<and> fst (create_mosaic rev_env [quad] (Some 0) 2 1 None) = Inr (Some 2)
   \<and> mset (cell_views (snd (create_mosaic rev_env [quad] (Some 0) 2 1 None) ! 2) 2)
       = mset (cell_views quad 2)"
proof -
  have 1: "wf_array ([quad] ! 0)" by (simp add: wf_quad)
  have 2: "(0::nat) < length [quad]" by simp
  have 3: "(2::int) \<le> 2" by simp
  have 4: "nat 2 dvd shape0 ([quad] ! 0)" and 5: "nat 2 dvd shape1 ([quad] ! 0)"
    by (simp_all add: quad_def)
  have 6: "mset (shuffle rev_env 0 [0..<nat 2 * nat 2]) = mset [0..<nat 2 * nat 2]"
    by (simp add: rev_env_def)
  from no_pool_permutation[OF 1 2 3 4 5 6] obtain out h' where
    r: "create_mosaic rev_env [quad] (Some 0) 2 1 None = (Inr (Some out), h')"
    and m: "mset (cell_views (h' ! out) 2) = mset (cell_views ([quad] ! 0) 2)"
    by blast
  have o: "out = 2" using r by (simp add: eval_quad_shuffle)
  have "fst (create_mosaic rev_env [quad] (Some 0) 2 1 None) = Inr (Some 2)"
    and "mset (cell_views (snd (create_mosaic rev_env [quad] (Some 0) 2 1 None) ! 2) 2)
       = mset (cell_views quad 2)"
    using m unfolding r o by simp_all
  with 1 2 3 4 5 6 show ?thesis by (intro conjI)
qed

section \<open>Resizing for an empty cell\<close>

text \<open>
  C5 fails on the code.  A 1 x 1 image cut with grid order 2 has the boundaries
  \<open>[0, 0, 1]\<close>: three of its four cells are empty.  In no-pool mode the shuffle sends
  the 1 x 1 tile to an empty cell (here the reversal sends tile 3 to cell 0), the shapes
  differ, and \<open>cv2.resize\<close> is asked for an empty size: it raises, and nothing in
  \<open>create_mosaic\<close> catches the exception.
\<close>

theorem resize_to_empty_cell_raises:
  "bounds 1 2 = [0, 0, 1]
   \<and> fst (create_mosaic rev_env [dot] (Some 0) 2 1 None) = Inl CvError"
  by code_simp

end
